theory Spec2Isabelle
  imports Main "HOL-Library.Word"
begin

section \<open>The native type-binding layer (src/udf/literal_traits.h)\<close>

subsection \<open>C++ types and the node enums\<close>

text \<open>
  The templates of \<^verbatim>\<open>literal_traits.h\<close> compute on C++ types. A C++ type is a value of
  \<open>cpp_type\<close>: the scalars, the codec structs, the wrapper templates of the header
  with their type arguments, pointers (the C-call argument types are pointers), and
  any other named class.
\<close>

datatype cpp_type =
    bool_t
  | int16_t
  | int32_t
  | int64_t
  | float_t
  | double_t
  | Timestamp_t
  | Date_t
  | StringRef_t
  | ListRef_t cpp_type
  | Opaque_t cpp_type
  | Nullable_t cpp_type
  | Tuple_t "cpp_type list"
  | AnyArg_t
  | LiteralTypedRow_t "cpp_type list"
  | Pointer_t cpp_type
  | Class_t string

text \<open>\<^verbatim>\<open>node::DataType\<close>: the enumerators the header uses.\<close>

datatype DataType =
    kBool | kInt16 | kInt32 | kInt64 | kFloat | kDouble | kVarchar | kDate | kTimestamp
  | kList | kOpaque | kTuple | kRow

text \<open>\<^verbatim>\<open>hybridse::type::Type\<close>: the column types \<^verbatim>\<open>codec_type_enum\<close> returns.\<close>

datatype ColumnType =
    type_kInt16 | type_kInt32 | type_kInt64 | type_kFloat | type_kDouble | type_kVarchar
  | type_kDate | type_kTimestamp

record ColumnDef =
  col_name :: string
  col_type :: ColumnType

type_synonym Schema = "ColumnDef list"

text \<open>
  A \<^verbatim>\<open>node::TypeNode*\<close> is modelled by the node it points to, \<open>None\<close> standing for
  \<^verbatim>\<open>nullptr\<close>: every node the header builds is fresh, and the only write to a node
  (\<^verbatim>\<open>generics_nullable_[0] = ...\<close>) is to the node just made, so no aliasing is
  observable. The three constructors are \<^verbatim>\<open>TypeNode\<close> and its subclasses
  \<^verbatim>\<open>OpaqueTypeNode\<close> and \<^verbatim>\<open>RowTypeNode\<close>.
\<close>

datatype TypeNode =
    TypeNode DataType "TypeNode option list" "bool list"
  | OpaqueTypeNode nat
  | RowTypeNode "Schema list"

fun base :: "TypeNode \<Rightarrow> DataType" where
  "base (TypeNode b gs ns) = b"
| "base (OpaqueTypeNode n) = kOpaque"
| "base (RowTypeNode ss) = kRow"

fun generics :: "TypeNode \<Rightarrow> TypeNode option list" where
  "generics (TypeNode b gs ns) = gs"
| "generics (OpaqueTypeNode n) = []"
| "generics (RowTypeNode ss) = []"

fun generics_nullable :: "TypeNode \<Rightarrow> bool list" where
  "generics_nullable (TypeNode b gs ns) = ns"
| "generics_nullable (OpaqueTypeNode n) = []"
| "generics_nullable (RowTypeNode ss) = []"

text \<open>
  Modelled from the spec: \<^verbatim>\<open>node::NodeManager\<close> (node/node_manager.h) is not among
  the sources. Its factory functions build the descriptor of section 3: a type with no
  generic slot, a type with one generic slot and one flag for it (initially false), an
  opaque type of a byte size, and a row type over schemas. The manager only owns the
  nodes, so it is not an argument here.
\<close>

definition MakeTypeNode :: "DataType \<Rightarrow> TypeNode" where
  "MakeTypeNode b = TypeNode b [] []"

definition MakeTypeNode1 :: "DataType \<Rightarrow> TypeNode option \<Rightarrow> TypeNode" where
  "MakeTypeNode1 b v1 = TypeNode b [v1] [False]"

definition MakeOpaqueType :: "nat \<Rightarrow> TypeNode" where
  "MakeOpaqueType n = OpaqueTypeNode n"

definition MakeRowType :: "Schema list \<Rightarrow> TypeNode" where
  "MakeRowType ss = RowTypeNode ss"

text \<open>The assignment \<^verbatim>\<open>node->generics_nullable_[i] = v\<close>.\<close>

fun set_generics_nullable :: "nat \<Rightarrow> bool \<Rightarrow> TypeNode \<Rightarrow> TypeNode" where
  "set_generics_nullable i v (TypeNode b gs ns) = TypeNode b gs (ns[i := v])"
| "set_generics_nullable i v n = n"

text \<open>The assignments \<^verbatim>\<open>generics_ = {...}\<close> and \<^verbatim>\<open>generics_nullable_ = {...}\<close>.\<close>

fun assign_generics :: "TypeNode option list \<Rightarrow> TypeNode \<Rightarrow> TypeNode" where
  "assign_generics gs' (TypeNode b gs ns) = TypeNode b gs' ns"
| "assign_generics gs' n = n"

fun assign_generics_nullable :: "bool list \<Rightarrow> TypeNode \<Rightarrow> TypeNode" where
  "assign_generics_nullable ns' (TypeNode b gs ns) = TypeNode b gs ns'"
| "assign_generics_nullable ns' n = n"

subsection \<open>Strings the traits build\<close>

text \<open>\<^verbatim>\<open>std::to_string\<close> on a \<^verbatim>\<open>size_t\<close>: the decimal digits.\<close>

definition digit_char :: "nat \<Rightarrow> char" where
  "digit_char d = char_of (48 + d)"

function std_to_string :: "nat \<Rightarrow> string" where
  "std_to_string n =
     (if n < 10 then [digit_char n] else std_to_string (n div 10) @ [digit_char (n mod 10)])"
  by pat_completeness auto
termination
  by (relation "measure (\<lambda>n. n)") auto

declare std_to_string.simps [simp del]

text \<open>
  The loop shared by \<^verbatim>\<open>DataTypeTrait<Tuple<T...>>::to_string\<close> (separator \<^verbatim>\<open>_\<close>) and
  \<^verbatim>\<open>LiteralToArgTypesSignature\<close> (separator \<^verbatim>\<open>, \<close>): it appends each name, and
  the separator while \<^verbatim>\<open>idx < sizeof...(T) - 1\<close>. The loop only runs on a non-empty
  pack, where the subtraction does not wrap.
\<close>

fun names_loop :: "string \<Rightarrow> string list \<Rightarrow> nat \<Rightarrow> nat \<Rightarrow> string" where
  "names_loop sep [] idx n = []"
| "names_loop sep (name # rest) idx n =
     name @ (if idx < n - 1 then sep else []) @ names_loop sep rest (idx + 1) n"

text \<open>
  All the results of a pack expansion \<^verbatim>\<open>{f<T>()...}\<close>, when every one of them is defined.
\<close>

fun expand_pack :: "'a option list \<Rightarrow> 'a list option" where
  "expand_pack [] = Some []"
| "expand_pack (None # rs) = None"
| "expand_pack (Some r # rs) = (case expand_pack rs of None \<Rightarrow> None | Some xs \<Rightarrow> Some (r # xs))"

subsection \<open>IsNullableTrait\<close>

fun IsNullableTrait :: "cpp_type \<Rightarrow> bool" where
  "IsNullableTrait (Nullable_t T) = True"
| "IsNullableTrait T = False"

subsection \<open>DataTypeTrait\<close>

text \<open>
  Each member of \<^verbatim>\<open>DataTypeTrait<T>\<close> is a partial function of \<open>T\<close>: \<open>None\<close> where the
  specialisation for \<open>T\<close> has no such member, where only the primary template applies
  (its members are declared and never defined), or where the member cannot be
  instantiated (the range-for over an empty braced list in the two joining loops).
  \<^verbatim>\<open>sizeof\<close> is the compiler's and is a parameter.
\<close>

fun to_string :: "(cpp_type \<Rightarrow> nat) \<Rightarrow> cpp_type \<Rightarrow> string option" where
  "to_string sizeof AnyArg_t = Some ''?''"
| "to_string sizeof bool_t = Some ''bool''"
| "to_string sizeof int16_t = Some ''int16''"
| "to_string sizeof int32_t = Some ''int32''"
| "to_string sizeof int64_t = Some ''int64''"
| "to_string sizeof float_t = Some ''float''"
| "to_string sizeof double_t = Some ''double''"
| "to_string sizeof Timestamp_t = Some ''timestamp''"
| "to_string sizeof Date_t = Some ''date''"
| "to_string sizeof StringRef_t = Some ''string''"
| "to_string sizeof (ListRef_t T) =
     (case to_string sizeof T of None \<Rightarrow> None | Some s \<Rightarrow> Some (''list_'' @ s))"
| "to_string sizeof (Opaque_t T) = Some (''opaque<'' @ std_to_string (sizeof T) @ ''>'')"
| "to_string sizeof (Nullable_t T) = to_string sizeof T"
| "to_string sizeof (Tuple_t Ts) =
     (case expand_pack (map (to_string sizeof) Ts) of
        None \<Rightarrow> None
      | Some names \<Rightarrow>
          if names = [] then None
          else Some (''tuple_'' @ names_loop ''_'' names 0 (length Ts)))"
| "to_string sizeof (LiteralTypedRow_t Ts) = Some ''row''"
| "to_string sizeof (Pointer_t T) = None"
| "to_string sizeof (Class_t c) = None"

fun to_type_enum :: "cpp_type \<Rightarrow> DataType option" where
  "to_type_enum AnyArg_t = None"
| "to_type_enum bool_t = Some kBool"
| "to_type_enum int16_t = Some kInt16"
| "to_type_enum int32_t = Some kInt32"
| "to_type_enum int64_t = Some kInt64"
| "to_type_enum float_t = Some kFloat"
| "to_type_enum double_t = Some kDouble"
| "to_type_enum Timestamp_t = Some kTimestamp"
| "to_type_enum Date_t = Some kDate"
| "to_type_enum StringRef_t = Some kVarchar"
| "to_type_enum (ListRef_t T) = Some kList"
| "to_type_enum (Opaque_t T) = Some kOpaque"
| "to_type_enum (Nullable_t T) = to_type_enum T"
| "to_type_enum (Tuple_t Ts) = Some kTuple"
| "to_type_enum (LiteralTypedRow_t Ts) = Some kRow"
| "to_type_enum (Pointer_t T) = None"
| "to_type_enum (Class_t c) = None"

fun codec_type_enum :: "cpp_type \<Rightarrow> ColumnType option" where
  "codec_type_enum int16_t = Some type_kInt16"
| "codec_type_enum int32_t = Some type_kInt32"
| "codec_type_enum int64_t = Some type_kInt64"
| "codec_type_enum float_t = Some type_kFloat"
| "codec_type_enum double_t = Some type_kDouble"
| "codec_type_enum Timestamp_t = Some type_kTimestamp"
| "codec_type_enum Date_t = Some type_kDate"
| "codec_type_enum StringRef_t = Some type_kVarchar"
| "codec_type_enum T = None"

text \<open>\<^verbatim>\<open>MakeLiteralSchema\<close>: column \<open>i\<close> is named \<^verbatim>\<open>col_i\<close> and has the i-th codec type.\<close>

fun schema_loop :: "ColumnType list \<Rightarrow> nat \<Rightarrow> Schema" where
  "schema_loop [] i = []"
| "schema_loop (t # ts) i =
     \<lparr>col_name = ''col_'' @ std_to_string i, col_type = t\<rparr> # schema_loop ts (i + 1)"

definition MakeLiteralSchema :: "cpp_type list \<Rightarrow> Schema option" where
  "MakeLiteralSchema Ts =
     (case expand_pack (map codec_type_enum Ts) of
        None \<Rightarrow> None
      | Some types \<Rightarrow> Some (schema_loop types 0))"

text \<open>
  \<^verbatim>\<open>to_type_node\<close>: the outer option is whether the member exists, the inner one the
  pointer it returns (\<^verbatim>\<open>DataTypeTrait<AnyArg>\<close> returns \<^verbatim>\<open>nullptr\<close>).
\<close>

fun to_type_node :: "(cpp_type \<Rightarrow> nat) \<Rightarrow> cpp_type \<Rightarrow> TypeNode option option" where
  "to_type_node sizeof AnyArg_t = Some None"
| "to_type_node sizeof bool_t = Some (Some (MakeTypeNode kBool))"
| "to_type_node sizeof int16_t = Some (Some (MakeTypeNode kInt16))"
| "to_type_node sizeof int32_t = Some (Some (MakeTypeNode kInt32))"
| "to_type_node sizeof int64_t = Some (Some (MakeTypeNode kInt64))"
| "to_type_node sizeof float_t = Some (Some (MakeTypeNode kFloat))"
| "to_type_node sizeof double_t = Some (Some (MakeTypeNode kDouble))"
| "to_type_node sizeof Timestamp_t = Some (Some (MakeTypeNode kTimestamp))"
| "to_type_node sizeof Date_t = Some (Some (MakeTypeNode kDate))"
| "to_type_node sizeof StringRef_t = Some (Some (MakeTypeNode kVarchar))"
| "to_type_node sizeof (ListRef_t T) =
     (case to_type_node sizeof T of
        None \<Rightarrow> None
      | Some elem \<Rightarrow>
          Some (Some (set_generics_nullable 0 (IsNullableTrait T) (MakeTypeNode1 kList elem))))"
| "to_type_node sizeof (Opaque_t T) = Some (Some (MakeOpaqueType (sizeof T)))"
| "to_type_node sizeof (Nullable_t T) = to_type_node sizeof T"
| "to_type_node sizeof (Tuple_t Ts) =
     (case expand_pack (map (to_type_node sizeof) Ts) of
        None \<Rightarrow> None
      | Some elems \<Rightarrow>
          Some (Some (assign_generics_nullable (map IsNullableTrait Ts)
                        (assign_generics elems (MakeTypeNode kTuple)))))"
| "to_type_node sizeof (LiteralTypedRow_t Ts) =
     (case MakeLiteralSchema Ts of
        None \<Rightarrow> None
      | Some schema \<Rightarrow> Some (Some (MakeRowType [schema])))"
| "to_type_node sizeof (Pointer_t T) = None"
| "to_type_node sizeof (Class_t c) = None"

text \<open>The member type \<^verbatim>\<open>CCallArgType\<close>, where the specialisation declares one.\<close>

fun CCallArgType :: "cpp_type \<Rightarrow> cpp_type option" where
  "CCallArgType bool_t = Some bool_t"
| "CCallArgType int16_t = Some int16_t"
| "CCallArgType int32_t = Some int32_t"
| "CCallArgType int64_t = Some int64_t"
| "CCallArgType float_t = Some float_t"
| "CCallArgType double_t = Some double_t"
| "CCallArgType Timestamp_t = Some (Pointer_t Timestamp_t)"
| "CCallArgType Date_t = Some (Pointer_t Date_t)"
| "CCallArgType StringRef_t = Some (Pointer_t StringRef_t)"
| "CCallArgType (ListRef_t T) = Some (Pointer_t (ListRef_t T))"
| "CCallArgType (Opaque_t T) = Some (Pointer_t T)"
| "CCallArgType T = None"

text \<open>
  \<^verbatim>\<open>CCallDataTypeTrait<T>::LiteralTag\<close>: the most specialised pattern wins, so the
  pointers to the codec structs come before the general pointer.
\<close>

fun LiteralTag :: "cpp_type \<Rightarrow> cpp_type" where
  "LiteralTag (Pointer_t Timestamp_t) = Timestamp_t"
| "LiteralTag (Pointer_t Date_t) = Date_t"
| "LiteralTag (Pointer_t StringRef_t) = StringRef_t"
| "LiteralTag (Pointer_t (ListRef_t V)) = ListRef_t V"
| "LiteralTag (Pointer_t V) = Opaque_t V"
| "LiteralTag Timestamp_t = AnyArg_t"
| "LiteralTag Date_t = AnyArg_t"
| "LiteralTag StringRef_t = AnyArg_t"
| "LiteralTag (ListRef_t V) = AnyArg_t"
| "LiteralTag T = T"

definition LiteralToArgTypesSignature :: "(cpp_type \<Rightarrow> nat) \<Rightarrow> cpp_type list \<Rightarrow> string option" where
  "LiteralToArgTypesSignature sizeof LiteralArgTypes =
     (case expand_pack (map (to_string sizeof) LiteralArgTypes) of
        None \<Rightarrow> None
      | Some names \<Rightarrow>
          if names = [] then None
          else Some (names_loop '', '' names 0 (length LiteralArgTypes)))"

subsection \<open>The value wrapper Nullable\<close>

text \<open>
  \<^verbatim>\<open>struct Nullable<T>\<close> has the two fields \<^verbatim>\<open>data_\<close> and \<^verbatim>\<open>is_null_\<close> (here
  \<open>m_data\<close> and \<open>m_is_null\<close>), read by \<^verbatim>\<open>value()\<close> and \<^verbatim>\<open>is_null()\<close>. The
  constructor from \<^verbatim>\<open>nullptr\<close> initialises \<^verbatim>\<open>data_(0)\<close>: the value of \<open>T\<close> made
  from 0 is the parameter \<open>zero\<close>. The default constructor leaves \<^verbatim>\<open>data_\<close>
  default-initialised: whatever it then holds is the parameter \<open>d\<close>.
\<close>

datatype 'a Nullable = Nullable (m_data: 'a) (m_is_null: bool)

definition Nullable_nullptr :: "'a \<Rightarrow> 'a Nullable" where
  "Nullable_nullptr zero = Nullable zero True"

definition Nullable_of :: "'a \<Rightarrow> 'a Nullable" where
  "Nullable_of t = Nullable t False"

definition Nullable_default :: "'a \<Rightarrow> 'a Nullable" where
  "Nullable_default d = Nullable d False"

definition value_of :: "'a Nullable \<Rightarrow> 'a" where
  "value_of x = m_data x"

definition is_null :: "'a Nullable \<Rightarrow> bool" where
  "is_null x = m_is_null x"

text \<open>
  Modelled from the spec: \<^verbatim>\<open>codec::StringRef\<close> (codec/fe_row_codec.h) is not among
  the sources; it is the "variable-length byte span" of section 3, here the characters
  of the span. \<^verbatim>\<open>StringRef("")\<close>, the span of the empty C string, is the empty span.
\<close>

type_synonym StringRef = string

definition StringRef_of_cstr :: "string \<Rightarrow> StringRef" where
  "StringRef_of_cstr str = str"

text \<open>The specialisation \<^verbatim>\<open>Nullable<StringRef>\<close>: \<^verbatim>\<open>data_("")\<close> from \<^verbatim>\<open>nullptr\<close>.\<close>

definition Nullable_StringRef_nullptr :: "StringRef Nullable" where
  "Nullable_StringRef_nullptr = Nullable (StringRef_of_cstr '''') True"

text \<open>
  \<^verbatim>\<open>operator==\<close> on \<^verbatim>\<open>Nullable<T>\<close>; \<open>eqT\<close> is \<^verbatim>\<open>operator==\<close> of \<open>T\<close>.
\<close>

definition Nullable_eq :: "('a \<Rightarrow> 'a \<Rightarrow> bool) \<Rightarrow> 'a Nullable \<Rightarrow> 'a Nullable \<Rightarrow> bool" where
  "Nullable_eq eqT x y =
     (if is_null x then is_null y else \<not> is_null y \<and> eqT (value_of x) (value_of y))"

subsection \<open>Descriptors up to nullability\<close>

text \<open>
  Erasing nullability from a descriptor clears every per-slot flag, at every depth.
\<close>

fun erase_nullability :: "TypeNode \<Rightarrow> TypeNode" where
  "erase_nullability (TypeNode b gs ns) =
     TypeNode b (map (map_option erase_nullability) gs) (map (\<lambda>f. False) ns)"
| "erase_nullability (OpaqueTypeNode n) = OpaqueTypeNode n"
| "erase_nullability (RowTypeNode ss) = RowTypeNode ss"

text \<open>
  A descriptor records nullability structurally when every node in it has exactly one
  flag per generic slot.
\<close>

fun slots_ok :: "TypeNode \<Rightarrow> bool" where
  "slots_ok (TypeNode b gs ns) =
     (length ns = length gs \<and>
      (\<forall>g \<in> set gs. case g of None \<Rightarrow> True | Some n \<Rightarrow> slots_ok n))"
| "slots_ok (OpaqueTypeNode n) = True"
| "slots_ok (RowTypeNode ss) = True"

text \<open>
  The name the traits give to a descriptor, read off the descriptor alone (used to show
  that the signature string is a function of the descriptors, whatever their flags).
\<close>

fun node_name :: "TypeNode option \<Rightarrow> string option" where
  "node_name None = Some ''?''"
| "node_name (Some (OpaqueTypeNode n)) = Some (''opaque<'' @ std_to_string n @ ''>'')"
| "node_name (Some (RowTypeNode ss)) = Some ''row''"
| "node_name (Some (TypeNode b gs ns)) =
     (case b of
        kBool \<Rightarrow> Some ''bool''
      | kInt16 \<Rightarrow> Some ''int16''
      | kInt32 \<Rightarrow> Some ''int32''
      | kInt64 \<Rightarrow> Some ''int64''
      | kFloat \<Rightarrow> Some ''float''
      | kDouble \<Rightarrow> Some ''double''
      | kTimestamp \<Rightarrow> Some ''timestamp''
      | kDate \<Rightarrow> Some ''date''
      | kVarchar \<Rightarrow> Some ''string''
      | kList \<Rightarrow>
          (case gs of
             [g] \<Rightarrow> (case node_name g of None \<Rightarrow> None | Some s \<Rightarrow> Some (''list_'' @ s))
           | _ \<Rightarrow> None)
      | kTuple \<Rightarrow>
          (case expand_pack (map node_name gs) of
             None \<Rightarrow> None
           | Some names \<Rightarrow>
               if names = [] then None
               else Some (''tuple_'' @ names_loop ''_'' names 0 (length gs)))
      | _ \<Rightarrow> None)"

text \<open>
  The native shapes the header resolves: a pointer or any other class has only the
  primary template (no definition), a list or a \<^verbatim>\<open>Nullable\<close> is as its argument, a
  tuple needs each of its element types, and a row needs a \<^verbatim>\<open>codec_type_enum\<close> for each
  of its column types.
\<close>

fun resolvable :: "cpp_type \<Rightarrow> bool" where
  "resolvable (ListRef_t T) = resolvable T"
| "resolvable (Nullable_t T) = resolvable T"
| "resolvable (Tuple_t Ts) = list_all resolvable Ts"
| "resolvable (LiteralTypedRow_t Ts) = list_all (\<lambda>T. codec_type_enum T \<noteq> None) Ts"
| "resolvable (Pointer_t T) = False"
| "resolvable (Class_t c) = False"
| "resolvable T = True"

subsection \<open>The registry\<close>

text \<open>
  Modelled from the spec: the registry (its \<^verbatim>\<open>Register\<close>) is not among the sources.
  Section 4.4: an unsupported native type fails registration with
  \<open>UnsupportedBinding\<close>, and registration of an ambiguous signature fails with
  \<open>DuplicateSignature\<close>. A binding registers its resolved descriptors under the key
  \<^verbatim>\<open>LiteralToArgTypesSignature\<close> computes from its argument types.
\<close>

datatype registry_error = UnsupportedBinding | DuplicateSignature

type_synonym registry = "string \<rightharpoonup> TypeNode option list"

definition Register :: "(cpp_type \<Rightarrow> nat) \<Rightarrow> registry \<Rightarrow> cpp_type list \<Rightarrow> registry_error + registry" where
  "Register sizeof reg LiteralArgTypes =
     (case LiteralToArgTypesSignature sizeof LiteralArgTypes of
        None \<Rightarrow> Inl UnsupportedBinding
      | Some key \<Rightarrow>
          (case expand_pack (map (to_type_node sizeof) LiteralArgTypes) of
             None \<Rightarrow> Inl UnsupportedBinding
           | Some descs \<Rightarrow>
               (case reg key of
                  Some b \<Rightarrow> Inl DuplicateSignature
                | None \<Rightarrow> Inr (reg(key \<mapsto> descs)))))"

section \<open>The row codec (spec sections 3, 4.1 and 4.2)\<close>

text \<open>
  Modelled from the spec: the row codec (codec/fe_row_codec.h, with \<^verbatim>\<open>Encode\<close>,
  \<^verbatim>\<open>Decode\<close> and the row view) is not among the sources. Everything in this section
  follows the words of sections 3, 4.1 and 4.2. Where the spec leaves a constant to the
  producer, one is fixed here and used by both \<open>Encode\<close> and \<open>Decode\<close>:
  \<^item> the header is the total slice length in 4 bytes, then a 1-byte format-version tag;
  \<^item> integers are little-endian; a \<open>Float\<close> or \<open>Double\<close> is its 4- or 8-byte pattern;
  \<^item> bit \<open>i\<close> of a null bitmap is bit \<open>i mod 8\<close> of its byte \<open>i div 8\<close>;
  \<^item> an (offset, length) pair is two 4-byte integers, the offset counted from the start
    of the slice;
  \<^item> the mini-header of a \<open>Tuple\<close> is the null bitmap of its elements, followed by one
    slot per element;
  \<^item> the slot of a null field is filled with zero bytes.
\<close>

subsection \<open>Descriptors, schemas and values\<close>

type_synonym byte = "8 word"

text \<open>
  Modelled from the spec: the \<open>TypeDescriptor\<close> of section 3. A generic slot (the
  element of a \<open>List\<close>, each element of a \<open>Tuple\<close>, each column of a \<open>Row\<close>) carries its
  own nullability flag; the flag of a column is in the schema.
\<close>

datatype TypeDescriptor =
    TD_Bool
  | TD_Int16
  | TD_Int32
  | TD_Int64
  | TD_Float
  | TD_Double
  | TD_Timestamp
  | TD_Date
  | TD_StringRef
  | TD_List TypeDescriptor bool
  | TD_Tuple "(TypeDescriptor \<times> bool) list"
  | TD_Opaque nat
  | TD_Row "(string \<times> TypeDescriptor \<times> bool) list"

text \<open>
  Modelled from the spec: a schema is an ordered sequence of (name, type) pairs, each
  type with its \<open>is_nullable\<close> flag; position is the addressing key.
\<close>

type_synonym Column = "string \<times> TypeDescriptor \<times> bool"

type_synonym RowSchema = "Column list"

definition column_type :: "Column \<Rightarrow> TypeDescriptor" where
  "column_type c = fst (snd c)"

text \<open>
  Modelled from the spec: the values of the types of section 3. Integers are machine
  words; a \<open>StringRef\<close> is its bytes; an \<open>Opaque\<close> is its blob. The spec gives no layout
  for the inside of a \<open>List\<close> or of a nested \<open>Row\<close> (a variable-width field is "raw
  bytes" addressed by an offset/length pair): such a value is its raw bytes. A value
  tuple is a list of \<open>Value Nullable\<close>, the wrapper of the binding layer, so a null
  carries whatever data the caller left in it.
\<close>

datatype Value =
    VBool bool
  | VInt16 "16 word"
  | VInt32 "32 word"
  | VInt64 "64 word"
  | VFloat "32 word"
  | VDouble "64 word"
  | VTimestamp "64 word"
  | VDate "32 word"
  | VStringRef "byte list"
  | VList "byte list"
  | VTuple "Value Nullable list"
  | VOpaque "byte list"
  | VRow "byte list"

text \<open>Modelled from the spec: the error taxonomy of section 7 (codec part).\<close>

datatype codec_error =
    InvalidType | SchemaMismatch | Overflow | Truncated | SliceCountMismatch | TypeMismatch

text \<open>
  Equality of values as \<^verbatim>\<open>operator==\<close> sees it: two tuples are equal when their
  elements are equal under the equality of \<^verbatim>\<open>Nullable\<close> (see \<open>Nullable_eq\<close>), every
  other value when it is the same value.
\<close>

function (sequential) Value_eq :: "Value \<Rightarrow> Value \<Rightarrow> bool"
  and Fields_eq :: "Value Nullable list \<Rightarrow> Value Nullable list \<Rightarrow> bool" where
  "Value_eq (VTuple xs) y = (case y of VTuple ys \<Rightarrow> Fields_eq xs ys | _ \<Rightarrow> False)"
| "Value_eq x y = (x = y)"
| "Fields_eq [] [] = True"
| "Fields_eq (x # xs) [] = False"
| "Fields_eq [] (y # ys) = False"
| "Fields_eq (Nullable a an # xs) (Nullable b bn # ys) =
     ((if an then bn else \<not> bn \<and> Value_eq a b) \<and> Fields_eq xs ys)"
  by pat_completeness auto
termination
  by (relation "measure (case_sum (\<lambda>p. size (fst p))
                  (\<lambda>p. size_list (size_Nullable size) (fst p)))") simp_all

subsection \<open>Bytes, bitmaps and widths\<close>

text \<open>Modelled from the spec: a little-endian integer of \<open>k\<close> bytes, and its value.\<close>

fun le_bytes :: "nat \<Rightarrow> nat \<Rightarrow> byte list" where
  "le_bytes 0 n = []"
| "le_bytes (Suc k) n = of_nat (n mod 256) # le_bytes k (n div 256)"

fun le_nat :: "byte list \<Rightarrow> nat" where
  "le_nat [] = 0"
| "le_nat (b # bs) = unat b + 256 * le_nat bs"

text \<open>
  Modelled from the spec: the null bitmap, \<open>ceil(column_count / 8)\<close> bytes, bit \<open>i\<close>
  set exactly when column \<open>i\<close> is null.
\<close>

definition bitmap_size :: "nat \<Rightarrow> nat" where
  "bitmap_size column_count = (column_count + 7) div 8"

definition pack_byte :: "bool list \<Rightarrow> byte" where
  "pack_byte bs = horner_sum of_bool 2 bs"

definition bitmap :: "bool list \<Rightarrow> byte list" where
  "bitmap nulls =
     map (\<lambda>k. pack_byte (take 8 (drop (8 * k) nulls))) [0..<bitmap_size (length nulls)]"

definition bit_at :: "byte list \<Rightarrow> nat \<Rightarrow> bool" where
  "bit_at bm i = (i div 8 < length bm \<and> bit (bm ! (i div 8)) (i mod 8))"

definition unpack_bits :: "nat \<Rightarrow> byte list \<Rightarrow> bool list" where
  "unpack_bits column_count bm = map (bit_at bm) [0..<column_count]"

text \<open>Modelled from the spec: the header (4 bytes of length, 1 byte of version).\<close>

definition header_size :: nat where
  "header_size = 5"

definition format_version :: byte where
  "format_version = 1"

text \<open>
  Modelled from the spec: the width of a column's slot in the fixed-field area. A
  fixed-width type stores its value in place (section 4.1 gives the widths); a
  variable-width type stores an (offset, length) pair; a \<open>Tuple\<close> stores its mini-header
  and one slot per element.
\<close>

definition pair_width :: nat where
  "pair_width = 8"

fun slot_width :: "TypeDescriptor \<Rightarrow> nat" where
  "slot_width TD_Bool = 1"
| "slot_width TD_Int16 = 2"
| "slot_width TD_Int32 = 4"
| "slot_width TD_Int64 = 8"
| "slot_width TD_Float = 4"
| "slot_width TD_Double = 8"
| "slot_width TD_Timestamp = 8"
| "slot_width TD_Date = 4"
| "slot_width TD_StringRef = pair_width"
| "slot_width (TD_List t n) = pair_width"
| "slot_width (TD_Tuple elems) =
     bitmap_size (length elems) + sum_list (map (\<lambda>e. slot_width (fst e)) elems)"
| "slot_width (TD_Opaque n) = n"
| "slot_width (TD_Row s) = pair_width"

definition fields_width :: "(TypeDescriptor \<times> bool) list \<Rightarrow> nat" where
  "fields_width cols = sum_list (map (\<lambda>e. slot_width (fst e)) cols)"

definition pair_bytes :: "nat \<Rightarrow> nat \<Rightarrow> byte list" where
  "pair_bytes offset len = le_bytes 4 offset @ le_bytes 4 len"

subsection \<open>Encode\<close>

text \<open>
  Modelled from the spec: a value tuple conforms to a schema when it has one value per
  column, a null only where the column is nullable, and otherwise a value of the
  column's type (an \<open>Opaque<N>\<close> of exactly \<open>N\<close> bytes).
\<close>

fun conforms_value :: "TypeDescriptor \<Rightarrow> Value \<Rightarrow> bool"
  and conforms_fields :: "(TypeDescriptor \<times> bool) list \<Rightarrow> Value Nullable list \<Rightarrow> bool" where
  "conforms_value t (VBool b) = (t = TD_Bool)"
| "conforms_value t (VInt16 w) = (t = TD_Int16)"
| "conforms_value t (VInt32 w) = (t = TD_Int32)"
| "conforms_value t (VInt64 w) = (t = TD_Int64)"
| "conforms_value t (VFloat w) = (t = TD_Float)"
| "conforms_value t (VDouble w) = (t = TD_Double)"
| "conforms_value t (VTimestamp w) = (t = TD_Timestamp)"
| "conforms_value t (VDate w) = (t = TD_Date)"
| "conforms_value t (VStringRef bs) = (t = TD_StringRef)"
| "conforms_value t (VList bs) = (case t of TD_List e n \<Rightarrow> True | _ \<Rightarrow> False)"
| "conforms_value t (VTuple vs) =
     (case t of TD_Tuple elems \<Rightarrow> conforms_fields elems vs | _ \<Rightarrow> False)"
| "conforms_value t (VOpaque bs) = (t = TD_Opaque (length bs))"
| "conforms_value t (VRow bs) = (case t of TD_Row s \<Rightarrow> True | _ \<Rightarrow> False)"
| "conforms_fields [] [] = True"
| "conforms_fields (c # cols) [] = False"
| "conforms_fields [] (v # vs) = False"
| "conforms_fields (c # cols) (Nullable d isnull # vs) =
     ((if isnull then snd c else conforms_value (fst c) d) \<and> conforms_fields cols vs)"

text \<open>
  Modelled from the spec: the fixed-field area and the variable-data area of a sequence
  of fields. \<open>off\<close> is the offset in the slice at which the variable data of these
  fields starts. Each function returns the slot bytes and the variable data, the
  variable data of the non-null variable fields being concatenated in schema order; a
  null field takes a zero-filled slot and no variable data.
\<close>

fun enc_value :: "nat \<Rightarrow> TypeDescriptor \<Rightarrow> Value \<Rightarrow> byte list \<times> byte list"
  and enc_fields :: "nat \<Rightarrow> (TypeDescriptor \<times> bool) list \<Rightarrow> Value Nullable list
         \<Rightarrow> byte list \<times> byte list" where
  "enc_value off t (VBool b) = ([if b then 1 else 0], [])"
| "enc_value off t (VInt16 w) = (le_bytes 2 (unat w), [])"
| "enc_value off t (VInt32 w) = (le_bytes 4 (unat w), [])"
| "enc_value off t (VInt64 w) = (le_bytes 8 (unat w), [])"
| "enc_value off t (VFloat w) = (le_bytes 4 (unat w), [])"
| "enc_value off t (VDouble w) = (le_bytes 8 (unat w), [])"
| "enc_value off t (VTimestamp w) = (le_bytes 8 (unat w), [])"
| "enc_value off t (VDate w) = (le_bytes 4 (unat w), [])"
| "enc_value off t (VStringRef bs) = (pair_bytes off (length bs), bs)"
| "enc_value off t (VList bs) = (pair_bytes off (length bs), bs)"
| "enc_value off t (VRow bs) = (pair_bytes off (length bs), bs)"
| "enc_value off t (VOpaque bs) = (bs, [])"
| "enc_value off t (VTuple vs) =
     (case t of
        TD_Tuple elems \<Rightarrow>
          (case enc_fields off elems vs of
             (slots, var) \<Rightarrow> (bitmap (map is_null vs) @ slots, var))
      | _ \<Rightarrow> ([], []))"
| "enc_fields off [] vs = ([], [])"
| "enc_fields off (c # cols) [] = ([], [])"
| "enc_fields off (c # cols) (Nullable d isnull # vs) =
     (case (if isnull then (replicate (slot_width (fst c)) 0, [])
            else enc_value off (fst c) d) of
        (slot, var) \<Rightarrow>
          (case enc_fields (off + length var) cols vs of
             (slots, vars) \<Rightarrow> (slot @ slots, var @ vars)))"

text \<open>
  Modelled from the spec: \<open>Encode(schema, values) -> Slice\<close> fails with
  \<open>SchemaMismatch\<close> if the value count or types disagree with the schema, and with
  \<open>Overflow\<close> if the total length exceeds the range of the 4-byte length field; the
  slice is header, null bitmap, fixed-field area, variable-data area. \<open>slice_length\<close>
  is that total length.
\<close>

definition slice_length :: "RowSchema \<Rightarrow> Value Nullable list \<Rightarrow> nat" where
  "slice_length schema values =
     (let cols = map snd schema;
          var_start = header_size + bitmap_size (length schema) + fields_width cols
      in var_start + length (snd (enc_fields var_start cols values)))"

definition Encode :: "RowSchema \<Rightarrow> Value Nullable list \<Rightarrow> codec_error + byte list" where
  "Encode schema values =
     (let cols = map snd schema in
      if \<not> conforms_fields cols values then Inl SchemaMismatch
      else
        let var_start = header_size + bitmap_size (length schema) + fields_width cols in
        case enc_fields var_start cols values of
          (slots, var) \<Rightarrow>
            let total_size = var_start + length var in
            if 2 ^ 32 \<le> total_size then Inl Overflow
            else Inr (le_bytes 4 total_size @ [format_version] @ bitmap (map is_null values)
                        @ slots @ var))"

subsection \<open>Decode and the row view\<close>

text \<open>
  Modelled from the spec: what a null field reads as, the data of
  \<^verbatim>\<open>Nullable<T>(nullptr)\<close>.
\<close>

fun zero_value :: "TypeDescriptor \<Rightarrow> Value" where
  "zero_value TD_Bool = VBool False"
| "zero_value TD_Int16 = VInt16 0"
| "zero_value TD_Int32 = VInt32 0"
| "zero_value TD_Int64 = VInt64 0"
| "zero_value TD_Float = VFloat 0"
| "zero_value TD_Double = VDouble 0"
| "zero_value TD_Timestamp = VTimestamp 0"
| "zero_value TD_Date = VDate 0"
| "zero_value TD_StringRef = VStringRef []"
| "zero_value (TD_List t n) = VList []"
| "zero_value (TD_Tuple elems) = VTuple []"
| "zero_value (TD_Opaque n) = VOpaque (replicate n 0)"
| "zero_value (TD_Row s) = VRow []"

text \<open>
  Modelled from the spec: reading fields back. A reader consults the null bitmap first
  (for a nullable field) and never reads the slot of a null field; the data of a
  variable field is the bytes its (offset, length) pair addresses, and a pair that
  would read past the slice bound is \<open>Truncated\<close>.
\<close>

fun dec_value :: "byte list \<Rightarrow> TypeDescriptor \<Rightarrow> byte list \<Rightarrow> codec_error + Value"
  and dec_fields :: "byte list \<Rightarrow> (TypeDescriptor \<times> bool) list \<Rightarrow> bool list \<Rightarrow> byte list
         \<Rightarrow> codec_error + Value Nullable list" where
  "dec_value buf TD_Bool slot = Inr (VBool (le_nat slot \<noteq> 0))"
| "dec_value buf TD_Int16 slot = Inr (VInt16 (of_nat (le_nat slot)))"
| "dec_value buf TD_Int32 slot = Inr (VInt32 (of_nat (le_nat slot)))"
| "dec_value buf TD_Int64 slot = Inr (VInt64 (of_nat (le_nat slot)))"
| "dec_value buf TD_Float slot = Inr (VFloat (of_nat (le_nat slot)))"
| "dec_value buf TD_Double slot = Inr (VDouble (of_nat (le_nat slot)))"
| "dec_value buf TD_Timestamp slot = Inr (VTimestamp (of_nat (le_nat slot)))"
| "dec_value buf TD_Date slot = Inr (VDate (of_nat (le_nat slot)))"
| "dec_value buf TD_StringRef slot =
     (let off = le_nat (take 4 slot); len = le_nat (drop 4 slot) in
      if off + len \<le> length buf then Inr (VStringRef (take len (drop off buf)))
      else Inl Truncated)"
| "dec_value buf (TD_List t n) slot =
     (let off = le_nat (take 4 slot); len = le_nat (drop 4 slot) in
      if off + len \<le> length buf then Inr (VList (take len (drop off buf)))
      else Inl Truncated)"
| "dec_value buf (TD_Row s) slot =
     (let off = le_nat (take 4 slot); len = le_nat (drop 4 slot) in
      if off + len \<le> length buf then Inr (VRow (take len (drop off buf)))
      else Inl Truncated)"
| "dec_value buf (TD_Opaque n) slot = Inr (VOpaque slot)"
| "dec_value buf (TD_Tuple elems) slot =
     (let m = bitmap_size (length elems) in
      case dec_fields buf elems (unpack_bits (length elems) (take m slot)) (drop m slot) of
        Inl e \<Rightarrow> Inl e
      | Inr vs \<Rightarrow> Inr (VTuple vs))"
| "dec_fields buf [] nulls slots = Inr []"
| "dec_fields buf (c # cols) nulls slots =
     (let w = slot_width (fst c) in
      case (if snd c \<and> (case nulls of [] \<Rightarrow> False | b # bs \<Rightarrow> b)
            then Inr (Nullable (zero_value (fst c)) True)
            else (case dec_value buf (fst c) (take w slots) of
                    Inl e \<Rightarrow> Inl e
                  | Inr d \<Rightarrow> Inr (Nullable d False))) of
        Inl e \<Rightarrow> Inl e
      | Inr v \<Rightarrow>
          (case dec_fields buf cols (tl nulls) (drop w slots) of
             Inl e \<Rightarrow> Inl e
           | Inr vs \<Rightarrow> Inr (v # vs)))"

text \<open>
  Modelled from the spec: a \<open>RowView\<close> is bound to one slice and one schema.
  \<open>Decode\<close> fails with \<open>Truncated\<close> if the slice is shorter than header, bitmap and
  fixed-field area, or if a pair would read past the slice; it validates eagerly, at
  view construction. \<open>Get\<close> fails with \<open>TypeMismatch\<close> if the descriptor at the index
  is not the requested type, and otherwise returns the field, null per the bitmap.
\<close>

record RowView =
  view_slice :: "byte list"
  view_schema :: RowSchema

definition read_fields :: "RowSchema \<Rightarrow> byte list \<Rightarrow> codec_error + Value Nullable list" where
  "read_fields schema buf =
     (let n = length schema; cols = map snd schema;
          fixed_start = header_size + bitmap_size n in
      dec_fields buf cols
        (unpack_bits n (take (bitmap_size n) (drop header_size buf)))
        (take (fields_width cols) (drop fixed_start buf)))"

definition Decode :: "RowSchema \<Rightarrow> byte list \<Rightarrow> codec_error + RowView" where
  "Decode schema buf =
     (if length buf < header_size + bitmap_size (length schema) + fields_width (map snd schema)
      then Inl Truncated
      else case read_fields schema buf of
             Inl e \<Rightarrow> Inl e
           | Inr vs \<Rightarrow> Inr \<lparr>view_slice = buf, view_schema = schema\<rparr>)"

definition Get :: "RowView \<Rightarrow> TypeDescriptor \<Rightarrow> nat \<Rightarrow> codec_error + Value Nullable" where
  "Get view T index =
     (if index < length (view_schema view) \<and> column_type (view_schema view ! index) = T
      then (case read_fields (view_schema view) (view_slice view) of
              Inl e \<Rightarrow> Inl e
            | Inr vs \<Rightarrow> Inr (vs ! index))
      else Inl TypeMismatch)"

section \<open>The slice-chain codec (spec section 4.3)\<close>

text \<open>
  Modelled from the spec: \<^verbatim>\<open>DecodeRpcRow\<close> and \<^verbatim>\<open>EncodeRpcRow\<close> are only declared in
  src/sdk/sql_rpc_row_codec.h; their bodies are not among the sources. A buffer chain
  is an ordered sequence of byte ranges, read by offset and size across its segments.
  The length prefix of a slice is the length field of its own header (section 4.2), so
  the declared lengths of the slices of a row add up to the bytes the row spans.
\<close>

type_synonym buffer_chain = "byte list list"

definition chain_length :: "buffer_chain \<Rightarrow> nat" where
  "chain_length chain = length (concat chain)"

definition chain_read :: "buffer_chain \<Rightarrow> nat \<Rightarrow> nat \<Rightarrow> byte list" where
  "chain_read chain offset sz = take sz (drop offset (concat chain))"

definition chain_append :: "buffer_chain \<Rightarrow> byte list \<Rightarrow> buffer_chain" where
  "chain_append chain bytes = chain @ [bytes]"

definition declared_length :: "byte list \<Rightarrow> nat" where
  "declared_length s = le_nat (take 4 s)"

text \<open>
  Modelled from the spec: \<open>EncodeChain(row)\<close> appends each slice, in slice order, to
  the destination chain and returns the cumulative byte count written.
\<close>

fun EncodeChain :: "byte list list \<Rightarrow> buffer_chain \<Rightarrow> buffer_chain \<times> nat" where
  "EncodeChain [] chain = (chain, 0)"
| "EncodeChain (s # row) chain =
     (case EncodeChain row (chain_append chain s) of
        (chain', total_size) \<Rightarrow> (chain', length s + total_size))"

text \<open>
  Modelled from the spec: \<open>DecodeChain(buffer_chain, offset, size, slice_count)\<close> reads
  \<open>slice_count\<close> consecutive length-prefixed slices spanning exactly \<open>size\<close> bytes from
  \<open>offset\<close>. It fails with \<open>Truncated\<close> if the chain has fewer than \<open>size\<close> bytes from
  \<open>offset\<close> (or a slice declares more bytes than remain, or fewer than its own header),
  and with \<open>SliceCountMismatch\<close> if fewer than \<open>slice_count\<close> length prefixes are found
  before \<open>size\<close> bytes are consumed (or bytes remain after \<open>slice_count\<close> slices: the
  declared lengths must add up to \<open>size\<close> exactly).
\<close>

fun read_slices :: "byte list \<Rightarrow> nat \<Rightarrow> codec_error + byte list list" where
  "read_slices window 0 = (if window = [] then Inr [] else Inl SliceCountMismatch)"
| "read_slices window (Suc k) =
     (if length window < 4 then Inl SliceCountMismatch
      else
        let len = declared_length window in
        if len < header_size \<or> length window < len then Inl Truncated
        else case read_slices (drop len window) k of
               Inl e \<Rightarrow> Inl e
             | Inr row \<Rightarrow> Inr (take len window # row))"

definition DecodeChain :: "buffer_chain \<Rightarrow> nat \<Rightarrow> nat \<Rightarrow> nat \<Rightarrow> codec_error + byte list list" where
  "DecodeChain chain offset sz slice_count =
     (if chain_length chain < offset + sz then Inl Truncated
      else read_slices (chain_read chain offset sz) slice_count)"

text \<open>A slice is framed when it holds its header and declares its own length.\<close>

definition framed :: "byte list \<Rightarrow> bool" where
  "framed s = (header_size \<le> length s \<and> declared_length s = length s)"

section \<open>Properties of the type-binding layer\<close>

subsection \<open>Auxiliary facts\<close>

lemma expand_pack_Some: "expand_pack xs = Some ys \<Longrightarrow> xs = map Some ys"
  by (induction xs arbitrary: ys rule: expand_pack.induct) (auto split: option.splits)

lemma expand_pack_map_Some: "expand_pack (map Some ys) = Some ys"
  by (induction ys) auto

lemma expand_pack_None: "expand_pack xs = None \<longleftrightarrow> None \<in> set xs"
  by (induction xs rule: expand_pack.induct) (auto split: option.splits)

lemma IsNullableTrait_iff: "IsNullableTrait T \<longleftrightarrow> (\<exists>U. T = Nullable_t U)"
  by (cases T) auto

lemma resolvable_iff: "to_type_node sizeof T \<noteq> None \<longleftrightarrow> resolvable T"
proof (induction T)
  case (ListRef_t T)
  then show ?case by (auto split: option.splits)
next
  case (Tuple_t Ts)
  have "to_type_node sizeof (Tuple_t Ts) = None \<longleftrightarrow>
          expand_pack (map (to_type_node sizeof) Ts) = None"
    by (auto split: option.splits)
  also have "\<dots> \<longleftrightarrow> (\<exists>T \<in> set Ts. to_type_node sizeof T = None)"
    unfolding expand_pack_None by force
  also have "\<dots> \<longleftrightarrow> (\<exists>T \<in> set Ts. \<not> resolvable T)"
    using Tuple_t.IH by blast
  finally show ?case
    by (auto simp: list_all_iff)
next
  case (LiteralTypedRow_t Ts)
  have "to_type_node sizeof (LiteralTypedRow_t Ts) = None \<longleftrightarrow>
          expand_pack (map codec_type_enum Ts) = None"
    by (auto simp: MakeLiteralSchema_def split: option.splits)
  also have "\<dots> \<longleftrightarrow> (\<exists>T \<in> set Ts. codec_type_enum T = None)"
    unfolding expand_pack_None by force
  finally show ?case
    by (auto simp: list_all_iff)
qed simp_all

lemma to_string_node_name:
  "to_type_node sizeof T = Some nd \<Longrightarrow> to_string sizeof T = node_name nd"
proof (induction T arbitrary: nd)
  case (ListRef_t T)
  then show ?case
    by (auto simp: MakeTypeNode1_def split: option.splits)
next
  case (Tuple_t Ts)
  from Tuple_t.prems obtain elems where
    e: "expand_pack (map (to_type_node sizeof) Ts) = Some elems"
    and nd: "nd = Some (TypeNode kTuple elems (map IsNullableTrait Ts))"
    by (auto simp: MakeTypeNode_def split: option.splits)
  from e have m: "map (to_type_node sizeof) Ts = map Some elems"
    by (rule expand_pack_Some)
  then have len: "length elems = length Ts"
    by (metis length_map)
  have "map (to_string sizeof) Ts = map node_name elems"
  proof (rule nth_equalityI)
    show "length (map (to_string sizeof) Ts) = length (map node_name elems)"
      using len by simp
  next
    fix i assume "i < length (map (to_string sizeof) Ts)"
    then have i: "i < length Ts" by simp
    then have "to_type_node sizeof (Ts ! i) = Some (elems ! i)"
      using m len by (metis nth_map)
    then have "to_string sizeof (Ts ! i) = node_name (elems ! i)"
      using Tuple_t.IH i by simp
    then show "map (to_string sizeof) Ts ! i = map node_name elems ! i"
      using i len by simp
  qed
  then show ?case
    using nd len by (simp split: option.splits)
qed (auto simp: MakeTypeNode_def MakeOpaqueType_def MakeRowType_def split: option.splits)

lemma node_name_erase:
  "node_name (map_option erase_nullability nd) = node_name nd"
proof (cases nd)
  case None
  then show ?thesis by simp
next
  case (Some n)
  have "node_name (Some (erase_nullability n)) = node_name (Some n)"
  proof (induction n)
    case (TypeNode b gs ns)
    have IH: "\<And>g. g \<in> set gs \<Longrightarrow> node_name (map_option erase_nullability g) = node_name g"
      subgoal for g using TypeNode.IH by (cases g) auto
      done
    then have maps: "map node_name (map (map_option erase_nullability) gs) = map node_name gs"
      by simp
    show ?case
    proof (cases b)
      case kList
      then show ?thesis
        using IH by (auto split: list.splits option.splits)
    next
      case kTuple
      then show ?thesis
        using maps by (simp del: map_map split: option.splits)
    qed simp_all
  qed simp_all
  then show ?thesis using Some by simp
qed


lemma signature_of_descriptors:
  assumes "expand_pack (map (to_type_node sizeof) A) = Some dA"
  shows "LiteralToArgTypesSignature sizeof A =
           (case expand_pack (map node_name dA) of
              None \<Rightarrow> None
            | Some names \<Rightarrow>
                if names = [] then None else Some (names_loop '', '' names 0 (length dA)))"
proof -
  from assms have m: "map (to_type_node sizeof) A = map Some dA"
    by (rule expand_pack_Some)
  then have len: "length dA = length A"
    by (metis length_map)
  have "map (to_string sizeof) A = map node_name dA"
  proof (rule nth_equalityI)
    show "length (map (to_string sizeof) A) = length (map node_name dA)"
      using len by simp
  next
    fix i assume "i < length (map (to_string sizeof) A)"
    then have i: "i < length A" by simp
    then have "to_type_node sizeof (A ! i) = Some (dA ! i)"
      using m len by (metis nth_map)
    then have "to_string sizeof (A ! i) = node_name (dA ! i)"
      by (rule to_string_node_name)
    then show "map (to_string sizeof) A ! i = map node_name dA ! i"
      using i len by simp
  qed
  then show ?thesis
    by (simp add: LiteralToArgTypesSignature_def len split: option.splits)
qed

lemma erased_names:
  assumes "map (map_option erase_nullability) dA = map (map_option erase_nullability) dB"
  shows "map node_name dA = map node_name dB"
proof -
  have "map node_name dA = map node_name (map (map_option erase_nullability) dA)"
    by (simp add: node_name_erase)
  also have "\<dots> = map node_name (map (map_option erase_nullability) dB)"
    by (simp only: assms)
  also have "\<dots> = map node_name dB"
    by (simp add: node_name_erase)
  finally show ?thesis .
qed

lemma slots_ok_to_type_node:
  "to_type_node sizeof T = Some nd \<Longrightarrow> (case nd of None \<Rightarrow> True | Some n \<Rightarrow> slots_ok n)"
proof (induction T arbitrary: nd)
  case (ListRef_t T)
  then show ?case
    by (auto simp: MakeTypeNode1_def split: option.splits)
next
  case (Tuple_t Ts)
  from Tuple_t.prems obtain elems where
    e: "expand_pack (map (to_type_node sizeof) Ts) = Some elems"
    and nd: "nd = Some (TypeNode kTuple elems (map IsNullableTrait Ts))"
    by (auto simp: MakeTypeNode_def split: option.splits)
  from e have m: "map (to_type_node sizeof) Ts = map Some elems"
    by (rule expand_pack_Some)
  then have len: "length elems = length Ts"
    by (metis length_map)
  have "case g of None \<Rightarrow> True | Some n \<Rightarrow> slots_ok n" if "g \<in> set elems" for g
  proof -
    from that obtain i where i: "i < length elems" and g: "g = elems ! i"
      by (auto simp: in_set_conv_nth)
    then have "to_type_node sizeof (Ts ! i) = Some g"
      using m len by (metis nth_map)
    moreover have "Ts ! i \<in> set Ts" using i len by simp
    ultimately show ?thesis using Tuple_t.IH by blast
  qed
  then show ?case
    using nd len by simp
qed (auto simp: MakeTypeNode_def MakeOpaqueType_def MakeRowType_def split: option.splits)

subsection \<open>Nullable wrapping of a native type\<close>

text \<open>
  Claim C2. For every native type \<open>T\<close>, \<^verbatim>\<open>DataTypeTrait<Nullable<T>>\<close> resolves as
  \<^verbatim>\<open>DataTypeTrait<T>\<close> does: the same type node, the same type enum and the same name
  string (each defined for the one exactly when it is for the other). The two differ
  only in \<^verbatim>\<open>IsNullableTrait\<close>: true for \<^verbatim>\<open>Nullable<T>\<close>, false for a \<open>T\<close> that is not
  itself a \<^verbatim>\<open>Nullable\<close>.
\<close>

theorem Nullable_resolves_as_unwrapped:
  "to_type_node sizeof (Nullable_t T) = to_type_node sizeof T \<and>
   to_type_enum (Nullable_t T) = to_type_enum T \<and>
   to_string sizeof (Nullable_t T) = to_string sizeof T \<and>
   IsNullableTrait (Nullable_t T) \<and>
   ((\<forall>U. T \<noteq> Nullable_t U) \<longrightarrow> \<not> IsNullableTrait T)"
  by (simp add: IsNullableTrait_iff)

theorem Nullable_resolves_as_unwrapped_witness:
  "to_type_node (\<lambda>T. 8) (Nullable_t (ListRef_t int32_t)) = to_type_node (\<lambda>T. 8) (ListRef_t int32_t) \<and>
   to_type_enum (Nullable_t (ListRef_t int32_t)) = Some kList \<and>
   to_string (\<lambda>T. 8) (Nullable_t (ListRef_t int32_t)) = Some ''list_int32'' \<and>
   IsNullableTrait (Nullable_t (ListRef_t int32_t)) \<and>
   \<not> IsNullableTrait (ListRef_t int32_t)"
  using Nullable_resolves_as_unwrapped [of "\<lambda>T. 8" "ListRef_t int32_t"] by simp

subsection \<open>Ambiguous signatures\<close>

text \<open>
  Claim C3. Let binding \<open>A\<close> be registered, and let \<open>B\<close> resolve to a descriptor
  sequence equal to that of \<open>A\<close> after erasing nullability. Then \<open>B\<close> has the same
  argument-type signature string as \<open>A\<close>, and registering \<open>B\<close> (in the registry
  after \<open>A\<close>, or any extension of it) fails with \<open>DuplicateSignature\<close>. In
  particular the signature of a sequence with \<^verbatim>\<open>Nullable<T>\<close> at a position is the
  signature of the sequence with \<open>T\<close> there.
\<close>

theorem ambiguous_signature_is_duplicate:
  assumes "Register sizeof reg A = Inr reg'"
    and "reg' \<subseteq>\<^sub>m reg''"
    and "expand_pack (map (to_type_node sizeof) A) = Some dA"
    and "expand_pack (map (to_type_node sizeof) B) = Some dB"
    and "map (map_option erase_nullability) dA = map (map_option erase_nullability) dB"
  shows "LiteralToArgTypesSignature sizeof B = LiteralToArgTypesSignature sizeof A \<and>
         Register sizeof reg'' B = Inl DuplicateSignature \<and>
         LiteralToArgTypesSignature sizeof (xs @ Nullable_t T # ys) =
           LiteralToArgTypesSignature sizeof (xs @ T # ys)"
proof -
  have names: "map node_name dA = map node_name dB"
    using assms(5) by (rule erased_names)
  then have len: "length dA = length dB"
    by (metis length_map)
  have sig: "LiteralToArgTypesSignature sizeof B = LiteralToArgTypesSignature sizeof A"
    unfolding signature_of_descriptors [OF assms(3)] signature_of_descriptors [OF assms(4)]
      names len ..
  from assms(1) obtain key where
    key: "LiteralToArgTypesSignature sizeof A = Some key" and reg': "reg' = reg(key \<mapsto> dA)"
    using assms(3) by (auto simp: Register_def split: option.splits)
  from reg' have "reg' key = Some dA" by simp
  with assms(2) have "reg'' key = Some dA"
    by (auto simp: map_le_def dom_def)
  then have dup: "Register sizeof reg'' B = Inl DuplicateSignature"
    using sig key assms(4) by (simp add: Register_def)
  have "LiteralToArgTypesSignature sizeof (xs @ Nullable_t T # ys) =
           LiteralToArgTypesSignature sizeof (xs @ T # ys)"
    by (simp add: LiteralToArgTypesSignature_def split: option.splits)
  with sig dup show ?thesis by simp
qed

theorem ambiguous_signature_is_duplicate_witness:
  "Register (\<lambda>T. 8) Map.empty [ListRef_t int32_t, StringRef_t]
     = Inr [''list_int32, string'' \<mapsto>
             [Some (TypeNode kList [Some (TypeNode kInt32 [] [])] [False]),
              Some (TypeNode kVarchar [] [])]] \<and>
   expand_pack (map (to_type_node (\<lambda>T. 8)) [ListRef_t (Nullable_t int32_t), Nullable_t StringRef_t])
     = Some [Some (TypeNode kList [Some (TypeNode kInt32 [] [])] [True]),
             Some (TypeNode kVarchar [] [])] \<and>
   LiteralToArgTypesSignature (\<lambda>T. 8) [ListRef_t (Nullable_t int32_t), Nullable_t StringRef_t]
     = Some ''list_int32, string'' \<and>
   Register (\<lambda>T. 8)
     [''list_int32, string'' \<mapsto>
        [Some (TypeNode kList [Some (TypeNode kInt32 [] [])] [False]),
         Some (TypeNode kVarchar [] [])]]
     [ListRef_t (Nullable_t int32_t), Nullable_t StringRef_t] = Inl DuplicateSignature"
proof -
  let ?A = "[ListRef_t int32_t, StringRef_t]"
  let ?B = "[ListRef_t (Nullable_t int32_t), Nullable_t StringRef_t]"
  let ?dA = "[Some (TypeNode kList [Some (TypeNode kInt32 [] [])] [False]),
              Some (TypeNode kVarchar [] [])]"
  let ?dB = "[Some (TypeNode kList [Some (TypeNode kInt32 [] [])] [True]),
              Some (TypeNode kVarchar [] [])]"
  let ?r = "[''list_int32, string'' \<mapsto> ?dA]"
  have sA: "LiteralToArgTypesSignature (\<lambda>T. 8) ?A = Some ''list_int32, string''"
    by (simp add: LiteralToArgTypesSignature_def)
  have 3: "expand_pack (map (to_type_node (\<lambda>T. 8)) ?A) = Some ?dA"
    by (simp add: MakeTypeNode_def MakeTypeNode1_def)
  have 1: "Register (\<lambda>T. 8) Map.empty ?A = Inr ?r"
    by (simp add: Register_def sA MakeTypeNode_def MakeTypeNode1_def)
  have 2: "?r \<subseteq>\<^sub>m ?r" by simp
  have 4: "expand_pack (map (to_type_node (\<lambda>T. 8)) ?B) = Some ?dB"
    by (simp add: MakeTypeNode_def MakeTypeNode1_def)
  have 5: "map (map_option erase_nullability) ?dA = map (map_option erase_nullability) ?dB"
    by simp
  from ambiguous_signature_is_duplicate [OF 1 2 3 4 5] 1 4 sA show ?thesis by simp
qed

subsection \<open>The C calling convention\<close>

text \<open>
  Claim C4, as the code has it. \<^verbatim>\<open>CCallArgType\<close> is the type itself (by value) for
  \<^verbatim>\<open>bool\<close>, \<^verbatim>\<open>int16_t\<close>, \<^verbatim>\<open>int32_t\<close>, \<^verbatim>\<open>int64_t\<close>, \<^verbatim>\<open>float\<close> and \<^verbatim>\<open>double\<close>; it is a
  pointer for \<^verbatim>\<open>Timestamp\<close>, \<^verbatim>\<open>Date\<close>, \<^verbatim>\<open>StringRef\<close>, \<^verbatim>\<open>ListRef<V>\<close> (pointers to
  the struct) and \<^verbatim>\<open>Opaque<V>\<close> (a \<^verbatim>\<open>V*\<close>), and for no other type; the header
  declares no \<^verbatim>\<open>CCallArgType\<close> for \<^verbatim>\<open>LiteralTypedRow\<close> (the nested row),
  \<^verbatim>\<open>Nullable\<close>, \<^verbatim>\<open>Tuple\<close> or \<^verbatim>\<open>AnyArg\<close>. \<^verbatim>\<open>CCallDataTypeTrait\<close> reads the literal type
  back from the C type (for every type but \<^verbatim>\<open>Opaque\<close>), and reads a \<^verbatim>\<open>Timestamp\<close> or
  \<^verbatim>\<open>Date\<close> passed by value as \<^verbatim>\<open>AnyArg\<close>.
\<close>

theorem CCallArgType_calling_convention:
  "(T \<in> {bool_t, int16_t, int32_t, int64_t, float_t, double_t} \<longrightarrow> CCallArgType T = Some T) \<and>
   (T \<in> {Timestamp_t, Date_t, StringRef_t} \<longrightarrow> CCallArgType T = Some (Pointer_t T)) \<and>
   CCallArgType (ListRef_t V) = Some (Pointer_t (ListRef_t V)) \<and>
   CCallArgType (Opaque_t V) = Some (Pointer_t V) \<and>
   CCallArgType (LiteralTypedRow_t Vs) = None \<and>
   CCallArgType (Nullable_t V) = None \<and>
   CCallArgType (Tuple_t Vs) = None \<and>
   CCallArgType AnyArg_t = None \<and>
   (CCallArgType T = Some C \<longrightarrow>
      ((\<exists>U. C = Pointer_t U) \<longleftrightarrow>
       T \<in> {Timestamp_t, Date_t, StringRef_t} \<or> (\<exists>W. T = ListRef_t W) \<or> (\<exists>W. T = Opaque_t W))) \<and>
   (CCallArgType T = Some C \<and> (\<forall>W. T \<noteq> Opaque_t W) \<longrightarrow> LiteralTag C = T) \<and>
   LiteralTag Timestamp_t = AnyArg_t \<and>
   LiteralTag Date_t = AnyArg_t"
  by (cases T) auto

theorem CCallArgType_calling_convention_witness:
  "CCallArgType int64_t = Some int64_t \<and>
   CCallArgType StringRef_t = Some (Pointer_t StringRef_t) \<and>
   CCallArgType Date_t = Some (Pointer_t Date_t) \<and>
   CCallArgType (Opaque_t (Class_t ''State'')) = Some (Pointer_t (Class_t ''State''))"
  using
    CCallArgType_calling_convention [of int64_t "Class_t ''State''" "[]" int64_t]
    CCallArgType_calling_convention [of StringRef_t "Class_t ''State''" "[]" "Pointer_t StringRef_t"]
    CCallArgType_calling_convention [of Date_t "Class_t ''State''" "[]" "Pointer_t Date_t"]
  by simp

text \<open>
  The claim as stated fails: \<^verbatim>\<open>Timestamp\<close> and \<^verbatim>\<open>Date\<close> are not passed by value
  (their \<^verbatim>\<open>CCallArgType\<close> is a pointer), and a nested row has no \<^verbatim>\<open>CCallArgType\<close>.
\<close>

theorem Timestamp_Date_not_by_value:
  "CCallArgType Timestamp_t = Some (Pointer_t Timestamp_t) \<and>
   CCallArgType Timestamp_t \<noteq> Some Timestamp_t \<and>
   CCallArgType Date_t = Some (Pointer_t Date_t) \<and>
   CCallArgType Date_t \<noteq> Some Date_t \<and>
   CCallArgType (LiteralTypedRow_t [int32_t]) = None"
  by simp

subsection \<open>Nullability of generic slots\<close>

text \<open>
  Claim C5. Whatever the element type \<open>T\<close> resolves to, \<^verbatim>\<open>ListRef<T>\<close> resolves to a
  \<open>kList\<close> node with that one generic slot and the one flag \<^verbatim>\<open>IsNullableTrait<T>\<close>;
  whatever the element types resolve to, \<^verbatim>\<open>Tuple<T...>\<close> resolves to a \<open>kTuple\<close> node
  with one slot per element type and flag \<open>i\<close> equal to \<^verbatim>\<open>IsNullableTrait\<close> of the i-th
  type. Every supported type resolves, so the list and the tuple of supported types
  are built, with these flags. \<^verbatim>\<open>IsNullableTrait\<close> holds exactly of the types of the form
  \<^verbatim>\<open>Nullable<V>\<close>, and every node of every descriptor the layer builds has exactly one
  flag per generic slot.
\<close>

theorem generic_slot_nullability_flags:
  "(to_type_node sizeof T = Some e \<longrightarrow>
      to_type_node sizeof (ListRef_t T) = Some (Some (TypeNode kList [e] [IsNullableTrait T]))) \<and>
   (expand_pack (map (to_type_node sizeof) Ts) = Some elems \<longrightarrow>
      length elems = length Ts \<and>
      to_type_node sizeof (Tuple_t Ts) =
        Some (Some (TypeNode kTuple elems (map IsNullableTrait Ts)))) \<and>
   (resolvable T \<longrightarrow> (\<exists>e'. to_type_node sizeof T = Some e')) \<and>
   (list_all resolvable Ts \<longrightarrow>
      (\<exists>elems'. expand_pack (map (to_type_node sizeof) Ts) = Some elems')) \<and>
   (resolvable (ListRef_t T) \<longrightarrow>
      (\<exists>n. to_type_node sizeof (ListRef_t T) = Some (Some n) \<and>
           length (generics n) = 1 \<and> generics_nullable n = [IsNullableTrait T])) \<and>
   (resolvable (Tuple_t Ts) \<longrightarrow>
      (\<exists>m. to_type_node sizeof (Tuple_t Ts) = Some (Some m) \<and>
           length (generics m) = length Ts \<and>
           generics_nullable m = map IsNullableTrait Ts)) \<and>
   (IsNullableTrait U \<longleftrightarrow> (\<exists>V. U = Nullable_t V)) \<and>
   (to_type_node sizeof W = Some (Some k) \<longrightarrow> slots_ok k)"
proof -
  have 1: "to_type_node sizeof (ListRef_t T) = Some (Some (TypeNode kList [e] [IsNullableTrait T]))"
    if "to_type_node sizeof T = Some e" for e
    using that by (simp add: MakeTypeNode1_def)
  have 2: "length elems = length Ts \<and>
      to_type_node sizeof (Tuple_t Ts) =
        Some (Some (TypeNode kTuple elems (map IsNullableTrait Ts)))"
    if e: "expand_pack (map (to_type_node sizeof) Ts) = Some elems" for elems
  proof -
    from e have "map (to_type_node sizeof) Ts = map Some elems"
      by (rule expand_pack_Some)
    then have "length elems = length Ts"
      by (metis length_map)
    then show ?thesis
      using e by (simp add: MakeTypeNode_def)
  qed
  have 3: "\<exists>e'. to_type_node sizeof T = Some e'" if "resolvable T" for T
    using that resolvable_iff [of sizeof T] by auto
  have 4: "\<exists>elems'. expand_pack (map (to_type_node sizeof) Ts) = Some elems'"
    if "list_all resolvable Ts"
  proof -
    from that have "\<forall>T \<in> set Ts. to_type_node sizeof T \<noteq> None"
      by (simp only: list_all_iff resolvable_iff)
    then have "None \<notin> set (map (to_type_node sizeof) Ts)"
      by force
    then have "expand_pack (map (to_type_node sizeof) Ts) \<noteq> None"
      by (simp only: expand_pack_None not_False_eq_True)
    then show ?thesis by auto
  qed
  have 5: "\<exists>n. to_type_node sizeof (ListRef_t T) = Some (Some n) \<and>
           length (generics n) = 1 \<and> generics_nullable n = [IsNullableTrait T]"
    if "resolvable (ListRef_t T)"
  proof -
    from that have "resolvable T" by simp
    from 3 [OF this] obtain e' where "to_type_node sizeof T = Some e'" ..
    from 1 [OF this] show ?thesis by simp
  qed
  have 6: "\<exists>m. to_type_node sizeof (Tuple_t Ts) = Some (Some m) \<and>
           length (generics m) = length Ts \<and>
           generics_nullable m = map IsNullableTrait Ts"
    if "resolvable (Tuple_t Ts)"
  proof -
    from that have "list_all resolvable Ts" by simp
    from 4 [OF this] obtain elems' where
      "expand_pack (map (to_type_node sizeof) Ts) = Some elems'" ..
    from 2 [OF this] show ?thesis by simp
  qed
  have 7: "to_type_node sizeof W = Some (Some k) \<longrightarrow> slots_ok k"
    using slots_ok_to_type_node [of sizeof W "Some k"] by simp
  have 8: "IsNullableTrait U \<longleftrightarrow> (\<exists>V. U = Nullable_t V)"
    by (rule IsNullableTrait_iff)
  from 1 2 3 [of T] 4 5 6 7 8 show ?thesis
    by blast
qed

theorem generic_slot_nullability_flags_witness:
  "resolvable (ListRef_t (Nullable_t int32_t)) \<and>
   to_type_node (\<lambda>T. 8) (ListRef_t (Nullable_t int32_t))
     = Some (Some (TypeNode kList [Some (TypeNode kInt32 [] [])] [True])) \<and>
   to_type_node (\<lambda>T. 8) (Tuple_t [int32_t, Nullable_t StringRef_t])
     = Some (Some (TypeNode kTuple
         [Some (TypeNode kInt32 [] []), Some (TypeNode kVarchar [] [])] [False, True])) \<and>
   slots_ok (TypeNode kList [Some (TypeNode kList [Some (TypeNode kDouble [] [])] [True])] [False])"
proof -
  let ?sz = "\<lambda>T::cpp_type. 8::nat"
  have h1: "to_type_node ?sz (Nullable_t int32_t) = Some (Some (TypeNode kInt32 [] []))"
    by (simp add: MakeTypeNode_def)
  have h2: "expand_pack (map (to_type_node ?sz) [int32_t, Nullable_t StringRef_t])
      = Some [Some (TypeNode kInt32 [] []), Some (TypeNode kVarchar [] [])]"
    by (simp add: MakeTypeNode_def)
  have h3: "to_type_node ?sz (ListRef_t (ListRef_t (Nullable_t double_t)))
      = Some (Some (TypeNode kList [Some (TypeNode kList [Some (TypeNode kDouble [] [])] [True])]
          [False]))"
    by (simp add: MakeTypeNode_def MakeTypeNode1_def)
  have r: "resolvable (ListRef_t (Nullable_t int32_t))"
    by simp
  note t = generic_slot_nullability_flags [of ?sz "Nullable_t int32_t" "Some (TypeNode kInt32 [] [])"
      "[int32_t, Nullable_t StringRef_t]"
      "[Some (TypeNode kInt32 [] []), Some (TypeNode kVarchar [] [])]"
      int32_t "ListRef_t (ListRef_t (Nullable_t double_t))"
      "TypeNode kList [Some (TypeNode kList [Some (TypeNode kDouble [] [])] [True])] [False]"]
  from t h1 h2 h3 r show ?thesis by simp
qed

subsection \<open>Order of the elements of a tuple\<close>

text \<open>
  Claim C6. The descriptor of \<^verbatim>\<open>Tuple<T0..Tn>\<close> is a \<open>kTuple\<close> node with as many
  generic slots as declared types, slot \<open>i\<close> holding what the i-th declared type
  resolves to; and the tuple resolves whenever each of its element types does.
\<close>

theorem Tuple_generics_in_declaration_order:
  "(to_type_node sizeof (Tuple_t Ts) = Some (Some n) \<longrightarrow>
      base n = kTuple \<and> length (generics n) = length Ts \<and>
      (\<forall>i<length Ts. to_type_node sizeof (Ts ! i) = Some (generics n ! i))) \<and>
   ((\<forall>T \<in> set Ts. to_type_node sizeof T \<noteq> None) \<longrightarrow>
      (\<exists>n. to_type_node sizeof (Tuple_t Ts) = Some (Some n)))"
proof -
  have 1: "base n = kTuple \<and> length (generics n) = length Ts \<and>
      (\<forall>i<length Ts. to_type_node sizeof (Ts ! i) = Some (generics n ! i))"
    if "to_type_node sizeof (Tuple_t Ts) = Some (Some n)"
  proof -
    from that obtain elems where
      e: "expand_pack (map (to_type_node sizeof) Ts) = Some elems"
      and n: "n = TypeNode kTuple elems (map IsNullableTrait Ts)"
      by (auto simp: MakeTypeNode_def split: option.splits)
    from e have m: "map (to_type_node sizeof) Ts = map Some elems"
      by (rule expand_pack_Some)
    then have len: "length elems = length Ts"
      by (metis length_map)
    have "to_type_node sizeof (Ts ! i) = Some (elems ! i)" if "i < length Ts" for i
      using m len that by (metis nth_map)
    then show ?thesis using n len by simp
  qed
  have 2: "\<exists>n. to_type_node sizeof (Tuple_t Ts) = Some (Some n)"
    if "\<forall>T \<in> set Ts. to_type_node sizeof T \<noteq> None"
  proof -
    from that have "None \<notin> set (map (to_type_node sizeof) Ts)" by auto
    then have "expand_pack (map (to_type_node sizeof) Ts) \<noteq> None"
      by (simp only: expand_pack_None not_False_eq_True)
    then show ?thesis by auto
  qed
  from 1 2 show ?thesis by blast
qed

theorem Tuple_generics_in_declaration_order_witness:
  "to_type_node (\<lambda>T. 8) (Tuple_t [int64_t, Nullable_t StringRef_t, double_t])
     = Some (Some (TypeNode kTuple
         [Some (TypeNode kInt64 [] []), Some (TypeNode kVarchar [] []), Some (TypeNode kDouble [] [])]
         [False, True, False])) \<and>
   to_type_node (\<lambda>T. 8) ([int64_t, Nullable_t StringRef_t, double_t] ! 1)
     = Some (Some (TypeNode kVarchar [] []))"
  using Tuple_generics_in_declaration_order [of "\<lambda>T. 8" "[int64_t, Nullable_t StringRef_t, double_t]"
      "TypeNode kTuple
         [Some (TypeNode kInt64 [] []), Some (TypeNode kVarchar [] []), Some (TypeNode kDouble [] [])]
         [False, True, False]"]
  by (simp add: MakeTypeNode_def)

subsection \<open>Equality and construction of Nullable values\<close>

text \<open>
  Claim C7. \<^verbatim>\<open>operator==\<close> on \<^verbatim>\<open>Nullable<T>\<close> holds exactly when both operands are
  null, or both are non-null and their values are equal; a null and a non-null operand
  are never equal; two nulls are equal whatever data they carry.
\<close>

theorem Nullable_eq_iff:
  "(Nullable_eq eqT x y \<longleftrightarrow>
      (is_null x \<and> is_null y) \<or> (\<not> is_null x \<and> \<not> is_null y \<and> eqT (value_of x) (value_of y))) \<and>
   (is_null x \<noteq> is_null y \<longrightarrow> \<not> Nullable_eq eqT x y) \<and>
   Nullable_eq eqT (Nullable d1 True) (Nullable d2 True)"
  by (auto simp: Nullable_eq_def is_null_def)

theorem Nullable_eq_iff_witness:
  "\<not> Nullable_eq (=) (Nullable_nullptr (0::int)) (Nullable_of 0) \<and>
   Nullable_eq (=) (Nullable (1::int) True) (Nullable 2 True) \<and>
   Nullable_eq (=) (Nullable_of (7::int)) (Nullable_of 7) \<and>
   \<not> Nullable_eq (=) (Nullable_of (7::int)) (Nullable_of 8)"
  using Nullable_eq_iff [of "(=)" "Nullable_nullptr (0::int)" "Nullable_of 0" 1 2]
    Nullable_eq_iff [of "(=)" "Nullable_of (7::int)" "Nullable_of 7" 1 2]
    Nullable_eq_iff [of "(=)" "Nullable_of (7::int)" "Nullable_of 8" 1 2]
  by (simp add: Nullable_nullptr_def Nullable_of_def is_null_def value_of_def)

text \<open>
  Claim C10. A default-constructed \<^verbatim>\<open>Nullable<T>\<close> is not null, whatever its data; the
  \<^verbatim>\<open>Nullable<StringRef>\<close> made from \<^verbatim>\<open>nullptr\<close> is null and \<^verbatim>\<open>value()\<close> on it is
  the empty string.
\<close>

theorem Nullable_default_not_null:
  "\<not> is_null (Nullable_default d) \<and>
   is_null Nullable_StringRef_nullptr \<and>
   value_of Nullable_StringRef_nullptr = StringRef_of_cstr '''' \<and>
   value_of Nullable_StringRef_nullptr = []"
  by (simp add: Nullable_default_def Nullable_StringRef_nullptr_def is_null_def value_of_def
      StringRef_of_cstr_def)

section \<open>Properties of the row codec\<close>

subsection \<open>Bytes and bitmaps\<close>

lemma length_le_bytes: "length (le_bytes k n) = k"
  by (induction k arbitrary: n) auto

lemma le_nat_le_bytes: "n < 256 ^ k \<Longrightarrow> le_nat (le_bytes k n) = n"
proof (induction k arbitrary: n)
  case 0
  then show ?case by simp
next
  case (Suc k)
  from Suc.prems have "n div 256 < 256 ^ k"
    by (simp add: less_mult_imp_div_less mult.commute)
  then have "le_nat (le_bytes k (n div 256)) = n div 256"
    by (rule Suc.IH)
  moreover have "unat (of_nat (n mod 256) :: byte) = n mod 256"
    by (simp add: unat_of_nat)
  ultimately show ?case by simp
qed

lemma le_word16: "of_nat (le_nat (le_bytes 2 (unat (w :: 16 word)))) = w"
proof -
  have "unat w < 2 ^ 16" using unsigned_less [of w, where ?'a = nat] by simp
  then have "unat w < 256 ^ 2" by simp
  then show ?thesis by (simp only: le_nat_le_bytes of_nat_unat ucast_id)
qed

lemma le_word32: "of_nat (le_nat (le_bytes 4 (unat (w :: 32 word)))) = w"
proof -
  have "unat w < 2 ^ 32" using unsigned_less [of w, where ?'a = nat] by simp
  then have "unat w < 256 ^ 4" by simp
  then show ?thesis by (simp only: le_nat_le_bytes of_nat_unat ucast_id)
qed

lemma le_word64: "of_nat (le_nat (le_bytes 8 (unat (w :: 64 word)))) = w"
proof -
  have "unat w < 2 ^ 64" using unsigned_less [of w, where ?'a = nat] by simp
  then have "unat w < 256 ^ 8" by simp
  then show ?thesis by (simp only: le_nat_le_bytes of_nat_unat ucast_id)
qed

lemma length_bitmap: "length (bitmap bs) = bitmap_size (length bs)"
  by (simp add: bitmap_def)

lemma bit_at_bitmap:
  assumes "i < length bs"
  shows "bit_at (bitmap bs) i = bs ! i"
proof -
  let ?k = "i div 8"
  have k: "?k < bitmap_size (length bs)"
    using assms by (simp add: bitmap_size_def)
  have i: "8 * ?k + i mod 8 = i" by simp
  from assms have "8 * ?k + i mod 8 < length bs"
    by (simp only: i)
  then have "i mod 8 < length bs - 8 * ?k"
    by linarith
  then have m: "i mod 8 < length (take 8 (drop (8 * ?k) bs))"
    by simp
  have "bit_at (bitmap bs) i = bit (pack_byte (take 8 (drop (8 * ?k) bs))) (i mod 8)"
    using k by (simp add: bit_at_def bitmap_def)
  also have "\<dots> = (take 8 (drop (8 * ?k) bs)) ! (i mod 8)"
    using m by (simp add: pack_byte_def bit_horner_sum_bit_word_iff)
  also have "\<dots> = bs ! i"
    using m i by simp
  finally show ?thesis .
qed

lemma unpack_bits_bitmap: "unpack_bits (length bs) (bitmap bs) = bs"
  by (rule nth_equalityI) (simp_all add: unpack_bits_def bit_at_bitmap)


lemma Fields_eq_list_all2:
  "Fields_eq xs ys \<longleftrightarrow> list_all2 (Nullable_eq Value_eq) xs ys"
proof (induction xs arbitrary: ys)
  case Nil
  then show ?case by (cases ys) simp_all
next
  case (Cons x xs)
  show ?case
  proof (cases ys)
    case Nil
    then show ?thesis by simp
  next
    case (Cons y ys')
    then show ?thesis
      using Cons.IH [of ys']
      by (cases x; cases y) (simp add: Nullable_eq_def is_null_def value_of_def)
  qed
qed

lemma pair_bytes_read:
  assumes "off < 2 ^ 32" and "len < 2 ^ 32"
  shows "le_nat (take 4 (pair_bytes off len)) = off"
    and "le_nat (drop 4 (pair_bytes off len)) = len"
proof -
  have "off < 256 ^ 4" and "len < 256 ^ 4" using assms by simp_all
  then show "le_nat (take 4 (pair_bytes off len)) = off"
    and "le_nat (drop 4 (pair_bytes off len)) = len"
    by (simp_all only: pair_bytes_def take_append drop_append length_le_bytes le_nat_le_bytes
        take_all drop_all diff_self_eq_0 take_0 drop_0 append_Nil2 append_Nil order_refl)
qed

lemma var_read:
  assumes "buf = pre @ var @ post" and "length pre = off" and "length buf < 2 ^ 32"
  shows "le_nat (take 4 (pair_bytes off (length var))) + le_nat (drop 4 (pair_bytes off (length var)))
           \<le> length buf"
    and "take (le_nat (drop 4 (pair_bytes off (length var))))
           (drop (le_nat (take 4 (pair_bytes off (length var)))) buf) = var"
proof -
  have o: "off < 2 ^ 32" and l: "length var < 2 ^ 32"
    using assms by simp_all
  show "le_nat (take 4 (pair_bytes off (length var))) + le_nat (drop 4 (pair_bytes off (length var)))
           \<le> length buf"
    using assms by (simp add: pair_bytes_read [OF o l])
  show "take (le_nat (drop 4 (pair_bytes off (length var))))
           (drop (le_nat (take 4 (pair_bytes off (length var)))) buf) = var"
    using assms by (simp add: pair_bytes_read [OF o l])
qed

lemma length_pair_bytes: "length (pair_bytes off len) = pair_width"
  by (simp add: pair_bytes_def pair_width_def length_le_bytes)

subsection \<open>Evaluation on numerals\<close>

lemma le_bytes_numeral:
  "le_bytes (numeral k) n = of_nat (n mod 256) # le_bytes (pred_numeral k) (n div 256)"
  by (simp only: numeral_eq_Suc le_bytes.simps)

lemma read_slices_numeral:
  "read_slices window (numeral k) =
     (if length window < 4 then Inl SliceCountMismatch
      else
        let len = declared_length window in
        if len < header_size \<or> length window < len then Inl Truncated
        else case read_slices (drop len window) (pred_numeral k) of
               Inl e \<Rightarrow> Inl e
             | Inr row \<Rightarrow> Inr (take len window # row))"
  unfolding numeral_eq_Suc [of k] by (rule read_slices.simps)

lemma replicate_numeral_Cons:
  "replicate (numeral k) x = x # replicate (pred_numeral k) x"
  by (simp only: numeral_eq_Suc replicate_Suc)

lemmas codec_eval =
  Encode_def Let_def header_size_def bitmap_size_def fields_width_def pair_width_def
  pair_bytes_def format_version_def bitmap_def pack_byte_def Nullable_of_def is_null_def
  value_of_def Nullable_eq_def le_bytes_numeral replicate_numeral_Cons

subsection \<open>Encoding followed by decoding\<close>

lemma conforms_fields_length: "conforms_fields cols vs \<Longrightarrow> length vs = length cols"
proof (induction cols arbitrary: vs)
  case Nil
  then show ?case by (cases vs) simp_all
next
  case (Cons c cols)
  then show ?case
  proof (cases vs)
    case Nil
    with Cons.prems show ?thesis by simp
  next
    case (Cons v vs')
    with Cons.prems Cons.IH [of vs'] show ?thesis by (cases v) simp
  qed
qed

lemma fields_width_Cons: "fields_width (c # cols) = slot_width (fst c) + fields_width cols"
  by (simp add: fields_width_def)

lemma roundtrip_value_fields:
  shows "conforms_value t d \<Longrightarrow> enc_value off t d = (slot, var) \<Longrightarrow>
           buf = pre @ var @ post \<Longrightarrow> length pre = off \<Longrightarrow> length buf < 2 ^ 32 \<Longrightarrow>
           length slot = slot_width t \<and> (\<exists>d'. dec_value buf t slot = Inr d' \<and> Value_eq d' d)"
    and "conforms_fields cols vs \<Longrightarrow> enc_fields off cols vs = (slots, vars) \<Longrightarrow>
           buf = pre @ vars @ post \<Longrightarrow> length pre = off \<Longrightarrow> length buf < 2 ^ 32 \<Longrightarrow>
           length slots = fields_width cols \<and>
           (\<exists>vs'. dec_fields buf cols (map is_null vs) slots = Inr vs' \<and> Fields_eq vs' vs)"
proof (induction off t d and off cols vs arbitrary: slot var pre post and slots vars pre post
    rule: enc_value_enc_fields.induct)
  case (1 off t b)
  then show ?case by (cases b) auto
next
  case (2 off t w)
  then show ?case by (auto simp: length_le_bytes le_word16)
next
  case (3 off t w)
  then show ?case by (auto simp: length_le_bytes le_word32)
next
  case (4 off t w)
  then show ?case by (auto simp: length_le_bytes le_word64)
next
  case (5 off t w)
  then show ?case by (auto simp: length_le_bytes le_word32)
next
  case (6 off t w)
  then show ?case by (auto simp: length_le_bytes le_word64)
next
  case (7 off t w)
  then show ?case by (auto simp: length_le_bytes le_word64)
next
  case (8 off t w)
  then show ?case by (auto simp: length_le_bytes le_word32)
next
  case (9 off t bs)
  from 9 have t: "t = TD_StringRef" and s: "slot = pair_bytes off (length bs)" and v: "var = bs"
    by auto
  from var_read [OF "9.prems"(3) "9.prems"(4) "9.prems"(5)] show ?case
    unfolding t s v by (simp add: length_pair_bytes Let_def)
next
  case (10 off t bs)
  from 10 obtain e n where t: "t = TD_List e n"
    by (cases t) auto
  from 10 have s: "slot = pair_bytes off (length bs)" and v: "var = bs"
    by auto
  from var_read [OF "10.prems"(3) "10.prems"(4) "10.prems"(5)] show ?case
    unfolding t s v by (simp add: length_pair_bytes Let_def)
next
  case (11 off t bs)
  from 11 obtain sc where t: "t = TD_Row sc"
    by (cases t) auto
  from 11 have s: "slot = pair_bytes off (length bs)" and v: "var = bs"
    by auto
  from var_read [OF "11.prems"(3) "11.prems"(4) "11.prems"(5)] show ?case
    unfolding t s v by (simp add: length_pair_bytes Let_def)
next
  case (12 off t bs)
  then show ?case by auto
next
  case (13 off t vs)
  from "13.prems"(1) obtain elems where t: "t = TD_Tuple elems"
    and c: "conforms_fields elems vs"
    by (cases t) auto
  obtain slots where e: "enc_fields off elems vs = (slots, var)"
    and s: "slot = bitmap (map is_null vs) @ slots"
    using "13.prems"(2) t by (auto split: prod.splits)
  from "13.IH" [OF t c e "13.prems"(3) "13.prems"(4) "13.prems"(5)]
  obtain vs' where w: "length slots = fields_width elems"
    and d: "dec_fields buf elems (map is_null vs) slots = Inr vs'" and q: "Fields_eq vs' vs"
    by blast
  have len: "length vs = length elems"
    using c by (rule conforms_fields_length)
  have bm: "length (bitmap (map is_null vs)) = bitmap_size (length elems)"
    by (simp add: length_bitmap len)
  have u: "unpack_bits (length elems) (bitmap (map is_null vs)) = map is_null vs"
    using unpack_bits_bitmap [of "map is_null vs"] by (simp add: len)
  have "dec_value buf t slot = Inr (VTuple vs')"
    unfolding t s by (simp add: bm u d)
  moreover have "length slot = slot_width t"
    unfolding t s by (simp add: bm w fields_width_def)
  ultimately show ?case using q by simp
next
  case (14 off vs)
  then show ?case by (cases vs) (simp_all add: fields_width_def)
next
  case (15 off c cols)
  then show ?case by simp
next
  case (16 off c cols d isnull vs)
  let ?w = "slot_width (fst c)"
  from "16.prems"(1) have cf: "conforms_fields cols vs"
    by simp
  show ?case
  proof (cases isnull)
    case True
    with "16.prems"(1) have nl: "snd c" by simp
    obtain slots' where e: "enc_fields off cols vs = (slots', vars)"
      and s: "slots = replicate ?w 0 @ slots'"
      using "16.prems"(2) True by (auto split: prod.splits)
    have eq: "(replicate ?w (0::byte), []::byte list) =
        (if isnull then (replicate ?w 0, []) else enc_value off (fst c) d)"
      using True by simp
    have e0: "enc_fields (off + length ([]::byte list)) cols vs = (slots', vars)"
      using e by simp
    have l0: "length pre = off + length ([]::byte list)"
      using "16.prems"(4) by simp
    from "16.IH"(2) [OF eq cf e0 "16.prems"(3) l0 "16.prems"(5)]
    obtain vs' where w: "length slots' = fields_width cols"
      and dd: "dec_fields buf cols (map is_null vs) slots' = Inr vs'" and q: "Fields_eq vs' vs"
      by auto
    have "dec_fields buf (c # cols) (map is_null (Nullable d isnull # vs)) slots
            = Inr (Nullable (zero_value (fst c)) True # vs')"
      using True nl by (simp add: s is_null_def dd)
    moreover have "length slots = fields_width (c # cols)"
      by (simp add: s w fields_width_Cons)
    ultimately show ?thesis using q True by simp
  next
    case False
    with "16.prems"(1) have cv: "conforms_value (fst c) d" by simp
    obtain slot var slots' vars' where ev: "enc_value off (fst c) d = (slot, var)"
      and e: "enc_fields (off + length var) cols vs = (slots', vars')"
      and s: "slots = slot @ slots'" and v: "vars = var @ vars'"
      using "16.prems"(2) False by (auto split: prod.splits)
    have b1: "buf = pre @ var @ (vars' @ post)"
      using "16.prems"(3) v by simp
    from "16.IH"(1) [OF False cv ev b1 "16.prems"(4) "16.prems"(5)]
    obtain d' where ws: "length slot = ?w" and dv: "dec_value buf (fst c) slot = Inr d'"
      and qv: "Value_eq d' d"
      by blast
    have eq: "(slot, var) = (if isnull then (replicate ?w 0, []) else enc_value off (fst c) d)"
      using False ev by simp
    have b2: "buf = (pre @ var) @ vars' @ post"
      using b1 by simp
    have l2: "length (pre @ var) = off + length var"
      using "16.prems"(4) by simp
    from "16.IH"(2) [OF eq cf e b2 l2 "16.prems"(5)]
    obtain vs' where w: "length slots' = fields_width cols"
      and dd: "dec_fields buf cols (map is_null vs) slots' = Inr vs'" and q: "Fields_eq vs' vs"
      by blast
    have "dec_fields buf (c # cols) (map is_null (Nullable d isnull # vs)) slots
            = Inr (Nullable d' False # vs')"
      using False by (simp add: s is_null_def ws dv dd)
    moreover have "length slots = fields_width (c # cols)"
      by (simp add: s w ws fields_width_Cons)
    ultimately show ?thesis using q qv False by simp
  qed
qed

lemma enc_widths:
  shows "conforms_value t d \<Longrightarrow> length (fst (enc_value off t d)) = slot_width t"
    and "conforms_fields cols vs \<Longrightarrow> length (fst (enc_fields off cols vs)) = fields_width cols"
proof (induction off t d and off cols vs rule: enc_value_enc_fields.induct)
  case (10 off t bs)
  then show ?case by (cases t) (auto simp: length_pair_bytes)
next
  case (11 off t bs)
  then show ?case by (cases t) (auto simp: length_pair_bytes)
next
  case (13 off t vs)
  from "13.prems" obtain elems where t: "t = TD_Tuple elems"
    and c: "conforms_fields elems vs"
    by (cases t) auto
  have "length vs = length elems"
    using c by (rule conforms_fields_length)
  then show ?case
    using "13.IH" [OF t c] t
    by (cases "enc_fields off elems vs") (simp add: length_bitmap fields_width_def)
next
  case (14 off vs)
  then show ?case by (simp add: fields_width_def)
next
  case (16 off c cols d isnull vs)
  then show ?case
    by (cases isnull) (auto simp: fields_width_Cons split: prod.splits)
qed (auto simp: length_le_bytes length_pair_bytes)

text \<open>
  Claim C1. For every schema \<open>S\<close> and every value tuple \<open>v\<close> conforming to \<open>S\<close>,
  \<open>Encode\<close> either reports \<open>Overflow\<close> (exactly when the slice would not fit its
  4-byte length field) or produces a slice that \<open>Decode\<close> accepts, and then every
  field read back with \<open>Get\<close> equals the field of \<open>v\<close>: both null, or both non-null
  with equal values (the equality of \<^verbatim>\<open>Nullable\<close>); in particular the null flags
  agree.
\<close>

theorem Encode_Decode_roundtrip:
  assumes "conforms_fields (map snd S) v"
  shows "(Encode S v = Inl Overflow \<longleftrightarrow> 2 ^ 32 \<le> slice_length S v) \<and>
         (Encode S v = Inl Overflow \<or>
          (\<exists>buf view. Encode S v = Inr buf \<and> Decode S buf = Inr view \<and>
             (\<forall>i<length S. \<exists>x. Get view (column_type (S ! i)) i = Inr x \<and>
                 Nullable_eq Value_eq x (v ! i) \<and> is_null x = is_null (v ! i))))"
proof (cases "Encode S v = Inl Overflow")
  case True
  with assms show ?thesis
    by (auto simp: Encode_def slice_length_def Let_def split: if_splits prod.splits)
next
  case False
  with assms have fits: "\<not> 2 ^ 32 \<le> slice_length S v"
    by (auto simp: Encode_def slice_length_def Let_def split: if_splits prod.splits)
  let ?cols = "map snd S"
  let ?start = "header_size + bitmap_size (length S) + fields_width ?cols"
  obtain slots var where e: "enc_fields ?start ?cols v = (slots, var)"
    by (cases "enc_fields ?start ?cols v") simp
  let ?total = "?start + length var"
  define pre where "pre = le_bytes 4 ?total @ [format_version] @ bitmap (map is_null v) @ slots"
  define buf where "buf = pre @ var"
  from False assms e have small: "?total < 2 ^ 32"
    by (auto simp: Encode_def Let_def split: if_splits)
  then have enc: "Encode S v = Inr buf"
    using assms e by (simp add: Encode_def Let_def buf_def pre_def)
  have lv: "length v = length S"
    using conforms_fields_length [OF assms] by simp
  have ls: "length slots = fields_width ?cols"
    using enc_widths(2) [OF assms, of ?start] e by simp
  have lb: "length (bitmap (map is_null v)) = bitmap_size (length S)"
    by (simp add: length_bitmap lv)
  have lp: "length pre = ?start"
    by (simp add: pre_def length_le_bytes lb ls header_size_def)
  have lbuf: "length buf < 2 ^ 32"
    using small lp by (simp add: buf_def)
  have b: "buf = pre @ var @ []"
    by (simp add: buf_def)
  from roundtrip_value_fields(2) [OF assms e b lp lbuf]
  obtain vs' where d: "dec_fields buf ?cols (map is_null v) slots = Inr vs'"
    and q: "Fields_eq vs' v"
    by blast
  have hd: "drop header_size buf = bitmap (map is_null v) @ slots @ var"
    by (simp add: buf_def pre_def header_size_def length_le_bytes)
  have bits: "unpack_bits (length S) (take (bitmap_size (length S)) (drop header_size buf))
        = map is_null v"
    using unpack_bits_bitmap [of "map is_null v"] by (simp only: hd) (simp add: lb lv)
  have fx: "take (fields_width ?cols) (drop (header_size + bitmap_size (length S)) buf) = slots"
    by (simp add: buf_def pre_def header_size_def length_le_bytes lb ls)
  have rf: "read_fields S buf = Inr vs'"
    unfolding read_fields_def Let_def bits fx by (rule d)
  have "\<not> length buf < ?start"
    using lp by (simp add: buf_def)
  then have dec: "Decode S buf = Inr \<lparr>view_slice = buf, view_schema = S\<rparr>"
    by (simp add: Decode_def rf)
  from q have all2: "list_all2 (Nullable_eq Value_eq) vs' v"
    by (simp only: Fields_eq_list_all2)
  have "\<exists>x. Get \<lparr>view_slice = buf, view_schema = S\<rparr> (column_type (S ! i)) i = Inr x \<and>
          Nullable_eq Value_eq x (v ! i) \<and> is_null x = is_null (v ! i)"
    if i: "i < length S" for i
  proof -
    have g: "Get \<lparr>view_slice = buf, view_schema = S\<rparr> (column_type (S ! i)) i = Inr (vs' ! i)"
      using i by (simp add: Get_def rf)
    have n: "Nullable_eq Value_eq (vs' ! i) (v ! i)"
      using all2 i lv by (simp add: list_all2_conv_all_nth)
    then have "is_null (vs' ! i) = is_null (v ! i)"
      by (auto simp: Nullable_eq_def split: if_splits)
    with g n show ?thesis by simp
  qed
  with enc dec False fits show ?thesis by blast
qed

theorem Encode_Decode_roundtrip_witness:
  "conforms_fields (map snd [(''id'', TD_Int32, False), (''name'', TD_StringRef, True)])
     [Nullable_of (VInt32 2), Nullable (VStringRef [99]) True] \<and>
   Encode [(''id'', TD_Int32, False), (''name'', TD_StringRef, True)]
     [Nullable_of (VInt32 2), Nullable (VStringRef [99]) True]
     = Inr [18, 0, 0, 0, 1, 2, 2, 0, 0, 0, 0, 0, 0, 0, 0, 0, 0, 0] \<and>
   (\<exists>view x y.
      Decode [(''id'', TD_Int32, False), (''name'', TD_StringRef, True)]
        [18, 0, 0, 0, 1, 2, 2, 0, 0, 0, 0, 0, 0, 0, 0, 0, 0, 0] = Inr view \<and>
      Get view TD_Int32 0 = Inr x \<and> Nullable_eq Value_eq x (Nullable_of (VInt32 2)) \<and>
      Get view TD_StringRef 1 = Inr y \<and> is_null y)"
proof -
  let ?S = "[(''id'', TD_Int32, False), (''name'', TD_StringRef, True)]"
  let ?v = "[Nullable_of (VInt32 2), Nullable (VStringRef [99]) True]"
  let ?b = "[18, 0, 0, 0, 1, 2, 2, 0, 0, 0, 0, 0, 0, 0, 0, 0, 0, 0] :: byte list"
  have c: "conforms_fields (map snd ?S) ?v"
    by (simp add: codec_eval)
  have e: "Encode ?S ?v = Inr ?b"
    by (simp add: codec_eval)
  from Encode_Decode_roundtrip [OF c] e obtain view where d: "Decode ?S ?b = Inr view"
    and g: "\<forall>i<length ?S. \<exists>x. Get view (column_type (?S ! i)) i = Inr x \<and>
                Nullable_eq Value_eq x (?v ! i) \<and> is_null x = is_null (?v ! i)"
    by auto
  from g [rule_format, of 0] obtain x where
    "Get view TD_Int32 0 = Inr x" "Nullable_eq Value_eq x (Nullable_of (VInt32 2))"
    by (auto simp: column_type_def)
  moreover from g [rule_format, of 1] obtain y where
    "Get view TD_StringRef 1 = Inr y" "is_null y"
    by (auto simp: column_type_def is_null_def)
  ultimately show ?thesis using c e d by blast
qed

text \<open>
  Null semantics on any slice, encoded here or not: a field reads as null exactly when
  its column is nullable and its bitmap bit is set, whatever bytes its slot holds.
\<close>

lemma dec_fields_length:
  "dec_fields buf cols nulls slots = Inr vs \<Longrightarrow> length vs = length cols"
proof (induction cols arbitrary: nulls slots vs)
  case Nil
  then show ?case by simp
next
  case (Cons c cols)
  then show ?case
    by (auto simp: Let_def split: if_splits sum.splits)
qed

lemma null_bit_reads_null:
  "dec_fields buf cols nulls slots = Inr vs \<Longrightarrow> i < length cols \<Longrightarrow> i < length nulls \<Longrightarrow>
     is_null (vs ! i) \<longleftrightarrow> snd (cols ! i) \<and> nulls ! i"
proof (induction cols arbitrary: nulls slots vs i)
  case Nil
  then show ?case by simp
next
  case (Cons c cols)
  from Cons.prems(3) obtain b bs where nulls: "nulls = b # bs"
    by (cases nulls) auto
  let ?w = "slot_width (fst c)"
  from Cons.prems(1) obtain v vs' where vs: "vs = v # vs'"
    and r: "dec_fields buf cols bs (drop ?w slots) = Inr vs'"
    and v: "is_null v \<longleftrightarrow> snd c \<and> b"
    by (auto simp: nulls Let_def is_null_def split: if_splits sum.splits)
  show ?case
  proof (cases i)
    case 0
    then show ?thesis
      using v vs nulls by simp
  next
    case (Suc j)
    then show ?thesis
      using Cons.IH [OF r, of j] Cons.prems(2,3) vs nulls by simp
  qed
qed

lemma Get_null_iff:
  assumes "Decode S buf = Inr view" and "i < length S"
  shows "\<exists>x. Get view (column_type (S ! i)) i = Inr x \<and>
           (is_null x \<longleftrightarrow>
              snd (snd (S ! i)) \<and> bit_at (take (bitmap_size (length S)) (drop header_size buf)) i)"
proof -
  let ?bm = "take (bitmap_size (length S)) (drop header_size buf)"
  let ?slots = "take (fields_width (map snd S)) (drop (header_size + bitmap_size (length S)) buf)"
  from assms(1) obtain vs where
    d: "dec_fields buf (map snd S) (unpack_bits (length S) ?bm) ?slots = Inr vs"
    and view: "view = \<lparr>view_slice = buf, view_schema = S\<rparr>"
    by (auto simp: Decode_def read_fields_def Let_def split: if_splits sum.splits)
  have g: "Get view (column_type (S ! i)) i = Inr (vs ! i)"
    using assms(2) d by (simp add: Get_def view read_fields_def Let_def)
  have "is_null (vs ! i) \<longleftrightarrow> snd (map snd S ! i) \<and> unpack_bits (length S) ?bm ! i"
    using null_bit_reads_null [OF d, of i] assms(2) by (simp add: unpack_bits_def)
  then have "is_null (vs ! i) \<longleftrightarrow> snd (snd (S ! i)) \<and> bit_at ?bm i"
    using assms(2) by (simp add: unpack_bits_def)
  with g show ?thesis by simp
qed

section \<open>Properties of the slice-chain codec\<close>

lemma declared_length_take:
  "4 \<le> len \<Longrightarrow> declared_length (take len window) = declared_length window"
  by (simp add: declared_length_def min_def)

lemma read_slices_Inr:
  "read_slices window k = Inr row \<Longrightarrow>
     concat row = window \<and> length row = k \<and> (\<forall>s \<in> set row. framed s)"
proof (induction window k arbitrary: row rule: read_slices.induct)
  case (1 window)
  then show ?case by (auto split: if_splits)
next
  case (2 window k)
  let ?len = "declared_length window"
  from "2.prems" have a: "\<not> length window < 4" and b: "\<not> (?len < header_size \<or> length window < ?len)"
    by (auto simp: Let_def split: if_splits)
  from "2.prems" a b obtain row' where r: "read_slices (drop ?len window) k = Inr row'"
    and row: "row = take ?len window # row'"
    by (auto simp: Let_def split: sum.splits)
  from "2.IH" [OF a refl b r] have IH: "concat row' = drop ?len window" "length row' = k"
    "\<forall>s \<in> set row'. framed s"
    by simp_all
  have "framed (take ?len window)"
    using b by (simp add: framed_def declared_length_take header_size_def min_def)
  with IH row show ?case by simp
qed

lemma read_slices_outcome:
  "read_slices window k = Inl Truncated \<or> read_slices window k = Inl SliceCountMismatch \<or>
   (\<exists>row. read_slices window k = Inr row)"
  by (induction window k rule: read_slices.induct) (auto simp: Let_def split: sum.splits)

lemma read_slices_framed:
  assumes "\<forall>s \<in> set row. framed s"
  shows "read_slices (concat row) k =
           (if k = length row then Inr row else Inl SliceCountMismatch)"
  using assms
proof (induction row arbitrary: k)
  case Nil
  then show ?case by (cases k) simp_all
next
  case (Cons s row)
  from Cons.prems have f: "framed s" and fs: "\<forall>s \<in> set row. framed s"
    by simp_all
  from f have l: "header_size \<le> length s" and d: "declared_length s = length s"
    by (simp_all add: framed_def)
  from l have l4: "4 \<le> length s" by (simp add: header_size_def)
  then have dl: "declared_length (s @ concat row) = length s"
    using d by (simp add: declared_length_def)
  show ?case
  proof (cases k)
    case 0
    then show ?thesis using l4 by auto
  next
    case (Suc k')
    then show ?thesis
      using Cons.IH [OF fs, of k'] l l4 by (simp add: dl Let_def)
  qed
qed

lemma sum_framed: "\<forall>s \<in> set row. framed s \<Longrightarrow>
    sum_list (map declared_length row) = length (concat row)"
  by (induction row) (simp_all add: framed_def)

lemma EncodeChain_eq: "EncodeChain row chain = (chain @ row, length (concat row))"
  by (induction row arbitrary: chain) (simp_all add: chain_append_def)

text \<open>
  Claim C8. \<open>DecodeChain\<close> succeeds only with as many slices as \<open>slice_count\<close>, each
  declaring its own length, whose declared lengths add up to exactly \<open>size\<close> and whose
  bytes are the \<open>size\<close> bytes at \<open>offset\<close>. A chain with fewer than \<open>size\<close> bytes
  from \<open>offset\<close> is \<open>Truncated\<close>; a window that holds a number of whole slices other
  than \<open>slice_count\<close> is \<open>SliceCountMismatch\<close>; every outcome is one of these two
  errors or a whole row, never a partial one. What \<open>EncodeChain\<close> appends for a row of
  framed slices decodes to that row.
\<close>

theorem DecodeChain_exact_size:
  "(DecodeChain chain offset sz slice_count = Inr row \<longrightarrow>
      sum_list (map declared_length row) = sz \<and> length row = slice_count \<and>
      (\<forall>s \<in> set row. declared_length s = length s) \<and>
      concat row = chain_read chain offset sz \<and> offset + sz \<le> chain_length chain) \<and>
   (chain_length chain < offset + sz \<longrightarrow>
      DecodeChain chain offset sz slice_count = Inl Truncated) \<and>
   (offset + sz \<le> chain_length chain \<and> chain_read chain offset sz = concat slices \<and>
    (\<forall>s \<in> set slices. framed s) \<longrightarrow>
      DecodeChain chain offset sz slice_count =
        (if slice_count = length slices then Inr slices else Inl SliceCountMismatch)) \<and>
   (DecodeChain chain offset sz slice_count = Inl Truncated \<or>
    DecodeChain chain offset sz slice_count = Inl SliceCountMismatch \<or>
    (\<exists>r. DecodeChain chain offset sz slice_count = Inr r)) \<and>
   ((\<forall>s \<in> set slices. framed s) \<longrightarrow>
      DecodeChain (fst (EncodeChain slices chain)) (chain_length chain)
        (snd (EncodeChain slices chain)) (length slices) = Inr slices)"
proof -
  have 1: "sum_list (map declared_length row) = sz \<and> length row = slice_count \<and>
      (\<forall>s \<in> set row. declared_length s = length s) \<and>
      concat row = chain_read chain offset sz \<and> offset + sz \<le> chain_length chain"
    if d: "DecodeChain chain offset sz slice_count = Inr row"
  proof -
    from d have le: "offset + sz \<le> chain_length chain"
      and r: "read_slices (chain_read chain offset sz) slice_count = Inr row"
      by (auto simp: DecodeChain_def split: if_splits)
    from read_slices_Inr [OF r] have c: "concat row = chain_read chain offset sz"
      and n: "length row = slice_count" and f: "\<forall>s \<in> set row. framed s"
      by simp_all
    have "length (chain_read chain offset sz) = sz"
      using le by (simp add: chain_read_def chain_length_def)
    then have "sum_list (map declared_length row) = sz"
      using sum_framed [OF f] c by simp
    with c n f le show ?thesis by (simp add: framed_def)
  qed
  have 2: "DecodeChain chain offset sz slice_count = Inl Truncated"
    if "chain_length chain < offset + sz"
    using that by (simp add: DecodeChain_def)
  have 3: "DecodeChain chain offset sz slice_count =
        (if slice_count = length slices then Inr slices else Inl SliceCountMismatch)"
    if "offset + sz \<le> chain_length chain" and "chain_read chain offset sz = concat slices"
      and "\<forall>s \<in> set slices. framed s"
    using that read_slices_framed [of slices slice_count] by (simp add: DecodeChain_def)
  have 4: "DecodeChain chain offset sz slice_count = Inl Truncated \<or>
    DecodeChain chain offset sz slice_count = Inl SliceCountMismatch \<or>
    (\<exists>r. DecodeChain chain offset sz slice_count = Inr r)"
    using read_slices_outcome [of "chain_read chain offset sz" slice_count]
    by (simp add: DecodeChain_def)
  have 5: "DecodeChain (fst (EncodeChain slices chain)) (chain_length chain)
        (snd (EncodeChain slices chain)) (length slices) = Inr slices"
    if "\<forall>s \<in> set slices. framed s"
    using read_slices_framed [OF that, of "length slices"]
    by (simp add: EncodeChain_eq DecodeChain_def chain_length_def chain_read_def)
  from 1 2 3 4 5 show ?thesis by blast
qed

theorem DecodeChain_exact_size_witness:
  "DecodeChain [[14, 0, 0, 0, 1, 0, 42, 0], [0, 0, 0, 0, 0, 0, 15, 0, 0],
                 [0, 1, 0, 14, 0, 0, 0, 1, 0, 0, 0, 122]] 0 29 2
     = Inr [[14, 0, 0, 0, 1, 0, 42, 0, 0, 0, 0, 0, 0, 0],
            [15, 0, 0, 0, 1, 0, 14, 0, 0, 0, 1, 0, 0, 0, 122]] \<and>
   sum_list (map declared_length
      [[14, 0, 0, 0, 1, 0, 42, 0, 0, 0, 0, 0, 0, 0],
       [15, 0, 0, 0, 1, 0, 14, 0, 0, 0, 1, 0, 0, 0, 122]]) = 29 \<and>
   DecodeChain [[14, 0, 0, 0, 1, 0, 42, 0], [0, 0, 0, 0, 0, 0, 15, 0, 0],
                 [0, 1, 0, 14, 0, 0, 0, 1, 0, 0, 0, 122]] 0 30 2 = Inl Truncated \<and>
   DecodeChain [[14, 0, 0, 0, 1, 0, 42, 0], [0, 0, 0, 0, 0, 0, 15, 0, 0],
                 [0, 1, 0, 14, 0, 0, 0, 1, 0, 0, 0, 122]] 0 29 3 = Inl SliceCountMismatch"
proof -
  let ?chain = "[[14, 0, 0, 0, 1, 0, 42, 0], [0, 0, 0, 0, 0, 0, 15, 0, 0],
                 [0, 1, 0, 14, 0, 0, 0, 1, 0, 0, 0, 122]] :: buffer_chain"
  let ?row = "[[14, 0, 0, 0, 1, 0, 42, 0, 0, 0, 0, 0, 0, 0],
               [15, 0, 0, 0, 1, 0, 14, 0, 0, 0, 1, 0, 0, 0, 122]] :: byte list list"
  have d: "DecodeChain ?chain 0 29 2 = Inr ?row"
    by (simp add: DecodeChain_def chain_length_def chain_read_def read_slices_numeral
        declared_length_def header_size_def Let_def)
  have l: "chain_length ?chain < 0 + 30"
    by (simp add: chain_length_def)
  have f: "0 + 29 \<le> chain_length ?chain \<and> chain_read ?chain 0 29 = concat ?row \<and>
      (\<forall>s \<in> set ?row. framed s)"
    by (simp add: chain_length_def chain_read_def framed_def declared_length_def header_size_def)
  from DecodeChain_exact_size [of ?chain 0 29 2 ?row ?row] d
  have 1: "sum_list (map declared_length ?row) = 29"
    by simp
  from DecodeChain_exact_size [of ?chain 0 30 2 ?row ?row] l
  have 2: "DecodeChain ?chain 0 30 2 = Inl Truncated"
    by simp
  from DecodeChain_exact_size [of ?chain 0 29 3 ?row ?row] f
  have 3: "DecodeChain ?chain 0 29 3 = Inl SliceCountMismatch"
    by simp
  from d 1 2 3 show ?thesis by simp
qed

end
